theory Spec2Isabelle
  imports Complex_Main "HOL-Library.Sublist"
begin

section \<open>Python strings\<close>

text \<open>
  Statement texts and model replies are Python \<open>str\<close> values. They are modelled as
  \<open>string\<close>, a list of 8-bit characters, each read as the code point of its number.
  The whitespace characters are the twelve code points below 256 for which
  \<open>str.isspace\<close> holds: tab, line feed, vertical tab, form feed, carriage return, the
  four separators 0x1C..0x1F, space, next line (0x85) and no-break space (0xA0); they are
  what \<open>strip\<close> removes and what \<open>\s\<close> matches. The case mappings are Python's on
  the ASCII letters and the identity elsewhere; letters beyond ASCII, and code points from
  256 on, are outside the model.
\<close>

definition ascii_lowercase :: string where
  "ascii_lowercase = ''abcdefghijklmnopqrstuvwxyz''"

definition ascii_uppercase :: string where
  "ascii_uppercase = ''ABCDEFGHIJKLMNOPQRSTUVWXYZ''"

definition digits :: string where
  "digits = ''0123456789''"

definition whitespace :: string where
  "whitespace = [CHR 0x09, CHR 0x0A, CHR 0x0B, CHR 0x0C, CHR 0x0D,
                 CHR 0x1C, CHR 0x1D, CHR 0x1E, CHR 0x1F, CHR 0x20,
                 CHR 0x85, CHR 0xA0]"

definition upper_char :: "char \<Rightarrow> char" where
  "upper_char c = (case map_of (zip ascii_lowercase ascii_uppercase) c of
                     Some u \<Rightarrow> u | None \<Rightarrow> c)"

definition lower_char :: "char \<Rightarrow> char" where
  "lower_char c = (case map_of (zip ascii_uppercase ascii_lowercase) c of
                     Some l \<Rightarrow> l | None \<Rightarrow> c)"

definition upper :: "string \<Rightarrow> string" where
  "upper s = map upper_char s"

definition lower :: "string \<Rightarrow> string" where
  "lower s = map lower_char s"

definition isspace :: "char \<Rightarrow> bool" where
  "isspace c = (c \<in> set whitespace)"

text \<open>\<open>s.strip()\<close>, and \<open>s.rstrip(chars)\<close>, which removes every trailing character
  that is in \<open>chars\<close>, not one suffix.\<close>

definition lstrip :: "string \<Rightarrow> string" where
  "lstrip s = dropWhile isspace s"

definition rstrip :: "string \<Rightarrow> string" where
  "rstrip s = rev (dropWhile isspace (rev s))"

definition strip :: "string \<Rightarrow> string" where
  "strip s = lstrip (rstrip s)"

definition rstrip_chars :: "string \<Rightarrow> string \<Rightarrow> string" where
  "rstrip_chars chars s = rev (dropWhile (\<lambda>c. c \<in> set chars) (rev s))"

definition startswith :: "string \<Rightarrow> string \<Rightarrow> bool" where
  "startswith s p = prefix p s"

text \<open>\<open>p in s\<close> on strings: \<open>p\<close> occurs in \<open>s\<close> as a contiguous substring.\<close>

fun contains :: "string \<Rightarrow> string \<Rightarrow> bool" where
  "contains p [] = (p = [])"
| "contains p (c # cs) = (prefix p (c # cs) \<or> contains p cs)"

section \<open>Guardrails (services/sql/guardrails.py)\<close>

record SQLValidationResult =
  is_safe :: bool
  warnings :: "string list"
  block_execution :: bool

definition dangerous_keywords :: "string list" where
  "dangerous_keywords =
     [''DROP '', ''TRUNCATE '', ''ALTER '', ''DELETE '', ''UPDATE '', ''INSERT '',
      ''MERGE '', ''CREATE '', ''REPLACE '', ''GRANT '', ''REVOKE '']"

text \<open>The loop over \<open>dangerous_keywords\<close>, with the pair \<open>(warnings, block)\<close> as its state.\<close>

fun scan_keywords :: "string \<Rightarrow> string list \<Rightarrow> string list \<times> bool \<Rightarrow> string list \<times> bool" where
  "scan_keywords sql_upper [] st = st"
| "scan_keywords sql_upper (kw # kws) (ws, block) =
     (if contains kw sql_upper
      then scan_keywords sql_upper kws
             (ws @ [''Detected dangerous keyword: '' @ strip kw], True)
      else scan_keywords sql_upper kws (ws, block))"

definition multiple_statements_warning :: string where
  "multiple_statements_warning =
     ''Multiple SQL statements detected; only single SELECT allowed''"

definition validate_sql :: "string \<Rightarrow> int \<Rightarrow> SQLValidationResult" where
  "validate_sql sql connection_id =
     (let sql_upper = upper (strip sql);
          st1 = (if \<not> startswith sql_upper ''SELECT''
                 then scan_keywords sql_upper dangerous_keywords ([], False)
                 else ([], False));
          st2 = (if contains '';'' (rstrip_chars '';'' (strip sql_upper))
                 then (fst st1 @ [multiple_statements_warning], True)
                 else st1)
      in \<lparr> is_safe = \<not> snd st2, warnings = fst st2, block_execution = snd st2 \<rparr>)"

text \<open>
  The two notions the guardrail properties are stated with. A statement text has a stray
  semicolon when it holds a \<open>;\<close> that is not its single, final character. A keyword occurs
  as a whole word when an occurrence is neither preceded nor followed by a word character
  (a letter, a digit or the underscore).
\<close>

definition stray_semicolon :: "string \<Rightarrow> bool" where
  "stray_semicolon s =
     (let n = length (filter (\<lambda>c. c = CHR '';'') s)
      in 1 < n \<or> (n = 1 \<and> last s \<noteq> CHR '';''))"

definition is_word_char :: "char \<Rightarrow> bool" where
  "is_word_char c = (c \<in> set (ascii_lowercase @ ascii_uppercase @ digits @ ''_''))"

fun word_at :: "string \<Rightarrow> string \<Rightarrow> bool" where
  "word_at kw s =
     (prefix kw s \<and> (case drop (length kw) s of [] \<Rightarrow> True | c # _ \<Rightarrow> \<not> is_word_char c))"

fun occurs_as_word :: "string \<Rightarrow> char option \<Rightarrow> string \<Rightarrow> bool" where
  "occurs_as_word kw prev [] = False"
| "occurs_as_word kw prev (c # cs) =
     (((case prev of None \<Rightarrow> True | Some p \<Rightarrow> \<not> is_word_char p) \<and> word_at kw (c # cs))
      \<or> occurs_as_word kw (Some c) cs)"

section \<open>SQL generation (services/sql/sql_chain.py)\<close>

text \<open>
  \<open>generate_sql\<close> asks the model for a reply and then reduces the reply to one
  statement with three regular expressions. Each expression is modelled by a function that
  computes what Python's \<open>re\<close> computes for it on ASCII text.

  \<open>re.sub(r"```[\s\S]*?```", " ", raw)\<close>: scanning from the left, a fence opener that
  has a closing fence after it is replaced, up to and including the nearest closing
  fence, by one space; an opener without a closing fence is ordinary text.
\<close>

definition fence :: string where
  "fence = [CHR 0x60, CHR 0x60, CHR 0x60]"

fun find_fence :: "string \<Rightarrow> nat option" where
  "find_fence [] = None"
| "find_fence (c # cs) =
     (if prefix fence (c # cs) then Some 0
      else (case find_fence cs of None \<Rightarrow> None | Some n \<Rightarrow> Some (Suc n)))"

fun remove_fences :: "string \<Rightarrow> string" where
  "remove_fences [] = []"
| "remove_fences (c # cs) =
     (if prefix fence (c # cs)
      then (case find_fence (drop 2 cs) of
              Some n \<Rightarrow> CHR '' '' # remove_fences (drop (2 + n + 3) cs)
            | None \<Rightarrow> c # remove_fences cs)
      else c # remove_fences cs)"

definition replace_backticks :: "string \<Rightarrow> string" where
  "replace_backticks s = map (\<lambda>c. if c = CHR 0x60 then CHR '' '' else c) s"

text \<open>
  \<open>re.search(r"(?is)(select[\s\S]*?)(;|$)", text_only)\<close>, group 1: the leftmost
  case-insensitive \<open>select\<close>, extended lazily to just before the first \<open>;\<close> or the
  end of the text (\<open>$\<close> also matches before a final line feed). The result is \<open>None\<close>
  when there is no match.
\<close>

fun lazy_until_end :: "string \<Rightarrow> string" where
  "lazy_until_end [] = []"
| "lazy_until_end (c # cs) =
     (if c = CHR '';'' then []
      else if c = CHR 0x0A \<and> cs = [] then []
      else c # lazy_until_end cs)"

fun search_select :: "string \<Rightarrow> string option" where
  "search_select [] = None"
| "search_select (c # cs) =
     (if prefix ''select'' (lower (c # cs))
      then Some (take 6 (c # cs) @ lazy_until_end (drop 6 (c # cs)))
      else search_select cs)"

text \<open>
  \<open>_fix_case_insensitive\<close>: \<open>re.sub\<close> with the pattern
  \<open>(?i)where\s+([\w\.\"]+)\s*=\s*'([a-z]+)'\<close>. Neighbouring parts of the pattern match
  disjoint sets of characters, so the greedy match is the only candidate at a position.
  \<open>match_where\<close> returns the two groups and the length of the match.
\<close>

definition is_column_char :: "char \<Rightarrow> bool" where
  "is_column_char c = (is_word_char c \<or> c = CHR ''.'' \<or> c = CHR 0x22)"

definition is_letter :: "char \<Rightarrow> bool" where
  "is_letter c = (c \<in> set (ascii_lowercase @ ascii_uppercase))"

definition match_where :: "string \<Rightarrow> (string \<times> string \<times> nat) option" where
  "match_where s =
     (if \<not> prefix ''where'' (lower s) then None
      else let r1 = drop 5 s;
               r2 = dropWhile isspace r1;
               col = takeWhile is_column_char r2;
               r3 = dropWhile isspace (dropWhile is_column_char r2)
           in if r2 = r1 \<or> col = [] then None
              else (case r3 of
                      [] \<Rightarrow> None
                    | e # r4 \<Rightarrow>
                        if e \<noteq> CHR ''='' then None
                        else (case dropWhile isspace r4 of
                                [] \<Rightarrow> None
                              | q # r5 \<Rightarrow>
                                  if q \<noteq> CHR 0x27 then None
                                  else let val = takeWhile is_letter r5
                                       in (case dropWhile is_letter r5 of
                                             [] \<Rightarrow> None
                                           | q' # r6 \<Rightarrow>
                                               if q' \<noteq> CHR 0x27 \<or> val = [] then None
                                               else Some (col, val, length s - length r6)))))"

definition repl :: "string \<Rightarrow> string \<Rightarrow> string" where
  "repl col val = ''WHERE '' @ col @ '' ILIKE '' @ [CHR 0x27] @ val @ [CHR 0x27]"

fun fix_case_insensitive :: "string \<Rightarrow> string" where
  "fix_case_insensitive [] = []"
| "fix_case_insensitive (c # cs) =
     (case match_where (c # cs) of
        Some (col, val, n) \<Rightarrow> repl col val @ fix_case_insensitive (drop (n - 1) cs)
      | None \<Rightarrow> c # fix_case_insensitive cs)"

text \<open>\<open>int(x)\<close> on a number: truncation towards zero. Clock readings are exact
  rationals; the rounding of floating-point arithmetic is not modelled.\<close>

definition py_int :: "rat \<Rightarrow> int" where
  "py_int x = (if 0 \<le> x then \<lfloor>x\<rfloor> else \<lceil>x\<rceil>)"

definition elapsed_ms :: "rat \<Rightarrow> rat \<Rightarrow> int" where
  "elapsed_ms start now = py_int ((now - start) * 1000)"

record QueryResponse =
  sql :: string
  explanation :: "string option"
  response_warnings :: "string list"
  confidence :: rat
  generation_time_ms :: "int option"

text \<open>
  The part of \<open>generate_sql\<close> after the model call. \<open>content\<close> is
  \<open>resp.choices[0].message.content\<close> (\<open>None\<close> when the reply has no text); \<open>start\<close> and
  \<open>now\<close> are the two readings of \<open>perf_counter\<close>.
\<close>

definition generate_sql :: "string option \<Rightarrow> rat \<Rightarrow> rat \<Rightarrow> QueryResponse" where
  "generate_sql content start now =
     (let raw = strip (case content of None \<Rightarrow> [] | Some c \<Rightarrow> c);
          text_only = replace_backticks (remove_fences raw);
          sql_text = (case search_select text_only of
                        Some g \<Rightarrow> strip g
                      | None \<Rightarrow> strip (takeWhile (\<lambda>c. c \<noteq> CHR '';'') text_only));
          sql_text = (if \<not> startswith (lower sql_text) ''select''
                      then ''SELECT 1;''
                      else rstrip_chars '';'' sql_text @ '';'');
          sql_text = fix_case_insensitive sql_text
      in \<lparr> sql = sql_text, explanation = None, response_warnings = [],
           confidence = 6 / 10, generation_time_ms = Some (elapsed_ms start now) \<rparr>)"

section \<open>Exceptions and the application database\<close>

text \<open>
  Exceptions are values. A function that can raise returns \<open>exn + 'a\<close>, with \<open>Inl\<close> the
  exception. \<open>SQLAlchemyError\<close> carries its text and \<open>HTTPException\<close> its status
  code and detail.
\<close>

datatype exn =
    ValueError string
  | SQLAlchemyError string
  | MultipleResultsFound
  | AttributeError
  | TypeError
  | OtherError string
  | HTTPException nat string

text \<open>\<open>str(n)\<close> for an integer: its decimal digits.\<close>

fun str_nat :: "nat \<Rightarrow> string" where
  "str_nat n = (if n < 10 then [digits ! n] else str_nat (n div 10) @ [digits ! (n mod 10)])"

definition str_int :: "int \<Rightarrow> string" where
  "str_int i = (if i < 0 then ''-'' @ str_nat (nat (- i)) else str_nat (nat i))"

text \<open>\<open>Query.one_or_none()\<close> on the rows a filter selected.\<close>

fun one_or_none :: "'a list \<Rightarrow> exn + 'a option" where
  "one_or_none [] = Inr None"
| "one_or_none [x] = Inr (Some x)"
| "one_or_none (x # y # zs) = Inl MultipleResultsFound"

record DbConnection =
  conn_id :: int
  conn_name :: string
  connection_string :: string

text \<open>
  The application database as a query on \<open>db_connections\<close> finds it: \<open>Reachable rs\<close>
  when the table holds the rows \<open>rs\<close>, \<open>Unreachable msg\<close> when running the query raises
  a \<open>SQLAlchemyError\<close> whose text is \<open>msg\<close>.
\<close>

datatype app_database =
    Unreachable string
  | Reachable "DbConnection list"

section \<open>Query execution (services/sql/executor.py)\<close>

text \<open>\<open>_get_connection_string\<close>: the query on the session, then the check of its
  result. \<open>execute_sql\<close> calls it before its \<open>try\<close> block.\<close>

definition get_connection_string :: "app_database \<Rightarrow> int \<Rightarrow> exn + string" where
  "get_connection_string db_connections connection_id =
     (case db_connections of
        Unreachable msg \<Rightarrow> Inl (SQLAlchemyError msg)
      | Reachable table \<Rightarrow>
          (case one_or_none (filter (\<lambda>r. conn_id r = connection_id) table) of
             Inl e \<Rightarrow> Inl e
           | Inr None \<Rightarrow>
               Inl (ValueError (''Connection id '' @ str_int connection_id @ '' not found''))
           | Inr (Some rec) \<Rightarrow> Inr (connection_string rec)))"

text \<open>
  What the target database does with one statement, as \<open>execute_sql\<close> sees it inside its
  \<open>try\<close> block. \<open>EngineError msg\<close>: creating the engine, connecting or executing raises
  a \<open>SQLAlchemyError\<close> whose text is \<open>msg\<close>. \<open>OtherFailure msg\<close>: an exception that is
  not a \<open>SQLAlchemyError\<close>. \<open>NoRows\<close>: the statement returns no rows
  (\<open>result.returns_rows\<close> is false). \<open>RowStream keys rs err\<close>: the result has the column
  keys \<open>keys\<close> and delivers the rows \<open>rs\<close> in order; after them the result set ends
  (\<open>err = None\<close>) or the next fetch raises a \<open>SQLAlchemyError\<close> (\<open>err = Some msg\<close>).
  The engine is a function of the connection string and the statement text: these are the
  only two values the code hands to it.
\<close>

datatype 'v db_outcome =
    EngineError string
  | OtherFailure string
  | NoRows
  | RowStream "string list" "'v list list" "string option"

record 'v QueryExecutionResponse =
  success :: bool
  rows :: "(string \<rightharpoonup> 'v) list"
  columns :: "string list"
  row_count :: int
  execution_time_ms :: int
  sql_executed :: string
  execution_warnings :: "string list"
  error :: "string option"

text \<open>\<open>{k: row[i] for i, k in enumerate(columns)}\<close>; a row has one value per key, and
  of two equal keys the later one determines the entry.\<close>

definition row_dict :: "string list \<Rightarrow> 'v list \<Rightarrow> (string \<rightharpoonup> 'v)" where
  "row_dict cols row = map_of (rev (zip cols row))"

text \<open>The loop \<open>for row in result\<close>, with \<open>rows\<close> and \<open>count\<close> as its state. It returns
  \<open>Inl msg\<close> when fetching raises.\<close>

fun fetch_rows ::
  "string list \<Rightarrow> int \<Rightarrow> 'v list list \<Rightarrow> string option \<Rightarrow> (string \<rightharpoonup> 'v) list \<Rightarrow> int
   \<Rightarrow> string + (string \<rightharpoonup> 'v) list" where
  "fetch_rows cols max_rows [] None rws count = Inr rws"
| "fetch_rows cols max_rows [] (Some msg) rws count = Inl msg"
| "fetch_rows cols max_rows (row # rest) err rws count =
     (let rws' = rws @ [row_dict cols row];
          count' = count + 1
      in if count' \<ge> max_rows then Inr rws'
         else fetch_rows cols max_rows rest err rws' count')"

definition failure_response :: "string \<Rightarrow> int \<Rightarrow> string \<Rightarrow> 'v QueryExecutionResponse" where
  "failure_response stmt ms msg =
     \<lparr> success = False, rows = [], columns = [], row_count = 0, execution_time_ms = ms,
       sql_executed = stmt, execution_warnings = [], error = Some msg \<rparr>"

definition success_response ::
  "string \<Rightarrow> int \<Rightarrow> string list \<Rightarrow> (string \<rightharpoonup> 'v) list \<Rightarrow> 'v QueryExecutionResponse" where
  "success_response stmt ms cols rws =
     \<lparr> success = True, rows = rws, columns = cols, row_count = int (length rws),
       execution_time_ms = ms, sql_executed = stmt, execution_warnings = [], error = None \<rparr>"

text \<open>
  \<open>execute_sql\<close>. \<open>start\<close> is the reading of \<open>perf_counter\<close> on entry and \<open>now\<close> the
  reading taken when the response is built, in the \<open>except\<close> branch or after the \<open>try\<close>
  block. The connection string is looked up before the \<open>try\<close> block.
\<close>

definition execute_sql ::
  "app_database \<Rightarrow> (string \<Rightarrow> string \<Rightarrow> 'v db_outcome) \<Rightarrow> string \<Rightarrow> int \<Rightarrow> int \<Rightarrow> int
   \<Rightarrow> rat \<Rightarrow> rat \<Rightarrow> exn + 'v QueryExecutionResponse" where
  "execute_sql db_connections engine stmt connection_id timeout_seconds max_rows start now =
     (case get_connection_string db_connections connection_id of
        Inl e \<Rightarrow> Inl e
      | Inr conn_str \<Rightarrow>
          (case engine conn_str stmt of
             EngineError msg \<Rightarrow> Inr (failure_response stmt (elapsed_ms start now) msg)
           | OtherFailure msg \<Rightarrow> Inl (OtherError msg)
           | NoRows \<Rightarrow> Inr (success_response stmt (elapsed_ms start now) [] [])
           | RowStream keys rs err \<Rightarrow>
               (case fetch_rows keys max_rows rs err [] 0 of
                  Inl msg \<Rightarrow> Inr (failure_response stmt (elapsed_ms start now) msg)
                | Inr rws \<Rightarrow> Inr (success_response stmt (elapsed_ms start now) keys rws))))"

text \<open>Environments for concrete runs: an application database with one stored
  connection, one whose table \<open>db_connections\<close> is missing, and target databases that
  answer every statement with one row, with three rows, or with an error.\<close>

definition one_connection :: app_database where
  "one_connection =
     Reachable [\<lparr> conn_id = 1, conn_name = ''main'', connection_string = ''sqlite://'' \<rparr>]"

definition missing_table :: app_database where
  "missing_table = Unreachable ''no such table: db_connections''"

definition one_row_engine :: "string \<Rightarrow> string \<Rightarrow> int db_outcome" where
  "one_row_engine conn_str stmt = RowStream [''1''] [[1]] None"

definition three_row_engine :: "string \<Rightarrow> string \<Rightarrow> int db_outcome" where
  "three_row_engine conn_str stmt = RowStream [''n''] [[1], [2], [3]] None"

definition failing_engine :: "string \<Rightarrow> string \<Rightarrow> int db_outcome" where
  "failing_engine conn_str stmt = EngineError ''no such table: orders''"

section \<open>The generate entry point (api/routes/query.py)\<close>

text \<open>\<open>sep.join(xs)\<close>.\<close>

fun join :: "string \<Rightarrow> string list \<Rightarrow> string" where
  "join sep [] = []"
| "join sep [x] = x"
| "join sep (x # y # zs) = x @ sep @ join sep (y # zs)"

text \<open>
  The route \<open>generate_sql\<close>. \<open>generated\<close> is the outcome of the call to the injected
  generation service (a response, or the exception it raised), and \<open>str\<close> is Python's
  \<open>str\<close> on exceptions. The whole body stands in a \<open>try\<close> block whose handler catches
  \<open>Exception\<close>, and \<open>HTTPException\<close> is a subclass of \<open>Exception\<close>.
\<close>

definition generate_sql_route ::
  "(exn \<Rightarrow> string) \<Rightarrow> exn + QueryResponse \<Rightarrow> int \<Rightarrow> exn + QueryResponse" where
  "generate_sql_route str generated connection_id =
     (let body =
        (case generated of
           Inl e \<Rightarrow> Inl e
         | Inr result \<Rightarrow>
             (let validation_result = validate_sql (sql result) connection_id
              in if \<not> is_safe validation_result
                 then (let result' = result\<lparr> response_warnings :=
                                   response_warnings result @ warnings validation_result \<rparr>
                       in if block_execution validation_result
                          then Inl (HTTPException 400
                                 (''SQL blocked by guardrails: ''
                                    @ join ''; '' (warnings validation_result)))
                          else Inr result')
                 else Inr result))
      in case body of
           Inl e \<Rightarrow> Inl (HTTPException 500 (''Failed to generate SQL: '' @ str e))
         | Inr result \<Rightarrow> Inr result)"

section \<open>Schema discovery (services/sql/schema_discovery.py)\<close>

text \<open>
  Schemas are Python dictionaries and lists as \<open>json.loads\<close> produces them. An object
  is the list of its items; its keys are distinct. A float is given by its exact value.
\<close>

datatype json =
    JNull
  | JBool bool
  | JInt int
  | JFloat rat
  | JStr string
  | JArr "json list"
  | JObj "(string \<times> json) list"

definition exn_bind :: "exn + 'a \<Rightarrow> ('a \<Rightarrow> exn + 'b) \<Rightarrow> exn + 'b" where
  "exn_bind m f = (case m of Inl e \<Rightarrow> Inl e | Inr x \<Rightarrow> f x)"

fun map_exn :: "('a \<Rightarrow> exn + 'b) \<Rightarrow> 'a list \<Rightarrow> exn + 'b list" where
  "map_exn f [] = Inr []"
| "map_exn f (x # xs) =
     exn_bind (f x) (\<lambda>y. exn_bind (map_exn f xs) (\<lambda>ys. Inr (y # ys)))"

text \<open>\<open>d.get(key, default)\<close> on the items of a dictionary, and on any value: a value
  that is no dictionary has no \<open>get\<close>.\<close>

definition items_get :: "(string \<times> json) list \<Rightarrow> string \<Rightarrow> json \<Rightarrow> json" where
  "items_get kvs key dflt = (case map_of kvs key of Some v \<Rightarrow> v | None \<Rightarrow> dflt)"

fun dict_get :: "json \<Rightarrow> string \<Rightarrow> json \<Rightarrow> exn + json" where
  "dict_get (JObj kvs) key dflt = Inr (items_get kvs key dflt)"
| "dict_get other key dflt = Inl AttributeError"

fun is_dict :: "json \<Rightarrow> bool" where
  "is_dict (JObj kvs) = True"
| "is_dict other = False"

text \<open>\<open>for t in x\<close>: a list yields its elements, a string its characters, a dictionary
  its keys; the other values are not iterable.\<close>

fun iterate :: "json \<Rightarrow> exn + json list" where
  "iterate (JArr xs) = Inr xs"
| "iterate (JStr s) = Inr (map (\<lambda>c. JStr [c]) s)"
| "iterate (JObj kvs) = Inr (map (\<lambda>kv. JStr (fst kv)) kvs)"
| "iterate other = Inl TypeError"

text \<open>
  \<open>set(xs)\<close> needs hashable elements: lists and dictionaries are not. Elements are
  compared with \<open>==\<close>, under which \<open>True\<close>, \<open>1\<close> and \<open>1.0\<close> are equal; \<open>hash_key\<close>
  maps a hashable value to its class under \<open>==\<close>.
\<close>

datatype hkey = KNone | KNum rat | KStr string

fun hash_key :: "json \<Rightarrow> hkey option" where
  "hash_key JNull = Some KNone"
| "hash_key (JBool b) = Some (KNum (if b then 1 else 0))"
| "hash_key (JInt i) = Some (KNum (of_int i))"
| "hash_key (JFloat r) = Some (KNum r)"
| "hash_key (JStr s) = Some (KStr s)"
| "hash_key (JArr xs) = None"
| "hash_key (JObj kvs) = None"

definition py_set :: "json list \<Rightarrow> exn + hkey set" where
  "py_set xs = (if list_all (\<lambda>x. hash_key x \<noteq> None) xs
                then Inr (set (map (\<lambda>x. the (hash_key x)) xs))
                else Inl TypeError)"

text \<open>\<open>[t.get("name") for t in d.get("tables", []) if isinstance(t, dict)]\<close>\<close>

definition table_names :: "json \<Rightarrow> exn + json list" where
  "table_names d =
     exn_bind (dict_get d ''tables'' (JArr [])) (\<lambda>ts.
     exn_bind (iterate ts) (\<lambda>items.
     map_exn (\<lambda>t. dict_get t ''name'' JNull) (filter is_dict items)))"

text \<open>The structure built from the raw schema when the reply is rejected.\<close>

fun rebuild_column :: "json \<Rightarrow> exn + json" where
  "rebuild_column (JObj c) =
     Inr (JObj [(''name'', items_get c ''name'' JNull),
                (''type'', items_get c ''type'' JNull),
                (''nullable'', items_get c ''nullable'' (JBool True)),
                (''primary_key'', items_get c ''primary_key'' (JBool False)),
                (''unique'', items_get c ''unique'' (JBool False))])"
| "rebuild_column other = Inl AttributeError"

fun rebuild_table :: "json \<Rightarrow> exn + json" where
  "rebuild_table (JObj t) =
     exn_bind (iterate (items_get t ''columns'' (JArr []))) (\<lambda>cs.
     exn_bind (map_exn rebuild_column cs) (\<lambda>cols.
     Inr (JObj [(''schema'', items_get t ''schema'' JNull),
                (''name'', items_get t ''name'' JNull),
                (''columns'', JArr cols)])))"
| "rebuild_table other = Inl AttributeError"

definition rebuild :: "json \<Rightarrow> exn + json" where
  "rebuild raw_schema =
     exn_bind (dict_get raw_schema ''database'' (JStr ''unknown'')) (\<lambda>db.
     exn_bind (dict_get raw_schema ''tables'' (JArr [])) (\<lambda>ts.
     exn_bind (iterate ts) (\<lambda>items.
     exn_bind (map_exn rebuild_table (filter is_dict items)) (\<lambda>tabs.
     Inr (JObj [(''database'', db), (''tables'', JArr tabs)])))))"

text \<open>
  \<open>_normalize_with_ai\<close> after the model call. \<open>parsed\<close> is the outcome of
  \<open>json.loads(content)\<close>: \<open>None\<close> when it raises, and \<open>Some (JObj [])\<close> for a reply
  without text, which the code parses from \<open>"{}"\<close>.
\<close>

definition normalize_with_ai :: "json \<Rightarrow> json option \<Rightarrow> exn + json" where
  "normalize_with_ai raw_schema parsed =
     exn_bind (case parsed of
                 Some j \<Rightarrow> Inr j
               | None \<Rightarrow>
                   exn_bind (dict_get raw_schema ''database'' (JStr ''unknown'')) (\<lambda>db.
                   exn_bind (dict_get raw_schema ''tables'' (JArr [])) (\<lambda>ts.
                   Inr (JObj [(''database'', db), (''tables'', ts)])))) (\<lambda>normalized.
     exn_bind (table_names raw_schema) (\<lambda>raw_tables.
     exn_bind (table_names normalized) (\<lambda>norm_tables.
     if norm_tables = [] then rebuild raw_schema
     else exn_bind (py_set norm_tables) (\<lambda>norm_set.
          exn_bind (py_set raw_tables) (\<lambda>raw_set.
          if norm_set \<noteq> raw_set then rebuild raw_schema else Inr normalized)))))"

text \<open>What \<open>_introspect_schema\<close> returns: the database name and, per table, its schema,
  name and columns, each column with the five keys of the dictionary built for it.\<close>

record column_info =
  col_name :: string
  col_type :: string
  col_nullable :: bool
  col_primary_key :: bool
  col_unique :: bool

record table_info =
  tbl_schema :: string
  tbl_name :: string
  tbl_columns :: "column_info list"

record raw_schema =
  database :: string
  tables :: "table_info list"

definition column_json :: "column_info \<Rightarrow> json" where
  "column_json c =
     JObj [(''name'', JStr (col_name c)), (''type'', JStr (col_type c)),
           (''nullable'', JBool (col_nullable c)),
           (''primary_key'', JBool (col_primary_key c)),
           (''unique'', JBool (col_unique c))]"

definition table_json :: "table_info \<Rightarrow> json" where
  "table_json t =
     JObj [(''schema'', JStr (tbl_schema t)), (''name'', JStr (tbl_name t)),
           (''columns'', JArr (map column_json (tbl_columns t)))]"

definition introspected_json :: "raw_schema \<Rightarrow> json" where
  "introspected_json r =
     JObj [(''database'', JStr (database r)), (''tables'', JArr (map table_json (tables r)))]"

text \<open>The column names a schema gives for the table called \<open>tname\<close>; entries that are no
  dictionaries give none.\<close>

fun columns_of :: "json \<Rightarrow> json list" where
  "columns_of (JObj t) =
     (case items_get t ''columns'' (JArr []) of
        JArr cs \<Rightarrow> concat (map (\<lambda>c. case c of JObj kvs \<Rightarrow> [items_get kvs ''name'' JNull]
                                             | _ \<Rightarrow> []) cs)
      | _ \<Rightarrow> [])"
| "columns_of other = []"

fun tables_of :: "json \<Rightarrow> json list" where
  "tables_of (JObj d) = (case items_get d ''tables'' (JArr []) of JArr ts \<Rightarrow> ts | _ \<Rightarrow> [])"
| "tables_of other = []"

definition column_names :: "json \<Rightarrow> string \<Rightarrow> json set" where
  "column_names d tname =
     set (concat (map columns_of
            (filter (\<lambda>t. dict_get t ''name'' JNull = Inr (JStr tname)) (tables_of d))))"

text \<open>The schema of the example database, one table \<open>orders(id, total)\<close>, and a reply that
  keeps the table and adds a column.\<close>

definition orders_raw :: raw_schema where
  "orders_raw =
     \<lparr> database = ''shop'',
       tables = [\<lparr> tbl_schema = ''public'', tbl_name = ''orders'',
                   tbl_columns =
                     [\<lparr> col_name = ''id'', col_type = ''integer'', col_nullable = False,
                        col_primary_key = True, col_unique = False \<rparr>,
                      \<lparr> col_name = ''total'', col_type = ''numeric(10,2)'', col_nullable = True,
                        col_primary_key = False, col_unique = False \<rparr>] \<rparr>] \<rparr>"

definition invented_column_reply :: json where
  "invented_column_reply =
     JObj [(''database'', JStr ''shop''),
           (''tables'', JArr [JObj [(''schema'', JStr ''public''), (''name'', JStr ''orders''),
              (''columns'', JArr [JObj [(''name'', JStr ''id''), (''type'', JStr ''integer'')],
                                 JObj [(''name'', JStr ''customer_email''),
                                       (''type'', JStr ''text'')]])]])]"

text \<open>
  \<open>discover_and_save\<close>. The table \<open>schema_snapshots\<close> is the list of its rows.
  \<open>introspected\<close> is the outcome of \<open>_introspect_schema\<close> and \<open>parsed\<close> the parsed reply
  of the model. Every exception is raised before the session is changed.
\<close>

record SchemaSnapshot =
  snap_id :: int
  snap_connection_id :: int
  snap_name :: json
  schema_json :: json

fun truthy :: "json \<Rightarrow> bool" where
  "truthy JNull = False"
| "truthy (JBool b) = b"
| "truthy (JInt i) = (i \<noteq> 0)"
| "truthy (JFloat r) = (r \<noteq> 0)"
| "truthy (JStr s) = (s \<noteq> [])"
| "truthy (JArr xs) = (xs \<noteq> [])"
| "truthy (JObj kvs) = (kvs \<noteq> [])"

definition next_id :: "SchemaSnapshot list \<Rightarrow> int" where
  "next_id snapshots = fold max (map snap_id snapshots) 0 + 1"

definition discover_and_save ::
  "int \<Rightarrow> exn + json \<Rightarrow> json option \<Rightarrow> SchemaSnapshot list
   \<Rightarrow> exn + (SchemaSnapshot list \<times> json)" where
  "discover_and_save connection_id introspected parsed snapshots =
     exn_bind introspected (\<lambda>raw.
     exn_bind (normalize_with_ai raw parsed) (\<lambda>normalized.
     exn_bind (one_or_none (filter (\<lambda>s. snap_connection_id s = connection_id) snapshots))
       (\<lambda>found.
     case found of
       None \<Rightarrow>
         exn_bind (dict_get normalized ''database'' JNull) (\<lambda>db.
         Inr (snapshots @
                [\<lparr> snap_id = next_id snapshots, snap_connection_id = connection_id,
                   snap_name = (if truthy db then db else JStr []),
                   schema_json = normalized \<rparr>],
              normalized))
     | Some snapshot \<Rightarrow>
         Inr (map (\<lambda>s. if snap_id s = snap_id snapshot
                        then s\<lparr> schema_json := normalized \<rparr> else s) snapshots,
              normalized))))"

text \<open>A sequence of calls, each given by its connection id and the two outcomes; a call
  that raises leaves the table as it was.\<close>

fun discover_all ::
  "(int \<times> (exn + json) \<times> json option) list \<Rightarrow> SchemaSnapshot list \<Rightarrow> SchemaSnapshot list" where
  "discover_all [] snapshots = snapshots"
| "discover_all ((connection_id, introspected, parsed) # calls) snapshots =
     (case discover_and_save connection_id introspected parsed snapshots of
        Inl e \<Rightarrow> discover_all calls snapshots
      | Inr (snapshots', normalized) \<Rightarrow> discover_all calls snapshots')"

section \<open>Properties of the string operations\<close>

lemma contains_single: "contains [c] s \<longleftrightarrow> c \<in> set s"
  by (induction s) auto

lemma upper_char_semicolon: "upper_char c = CHR '';'' \<longleftrightarrow> c = CHR '';''"
  by (auto simp: upper_char_def ascii_lowercase_def ascii_uppercase_def)

lemma isspace_upper_char: "isspace (upper_char c) = isspace c"
  by (auto simp: upper_char_def ascii_lowercase_def ascii_uppercase_def isspace_def whitespace_def)

lemma isspace_comp_upper: "isspace \<circ> upper_char = isspace"
  by (rule ext) (simp add: isspace_upper_char)

lemma strip_upper: "strip (upper s) = upper (strip s)"
  by (simp add: strip_def lstrip_def rstrip_def upper_def dropWhile_map rev_map isspace_comp_upper)

lemma rstrip_fixed: "s = [] \<or> \<not> isspace (last s) \<Longrightarrow> rstrip s = s"
  by (cases s rule: rev_cases) (auto simp: rstrip_def)

lemma rstrip_last: "rstrip s = [] \<or> \<not> isspace (last (rstrip s))"
proof (cases "dropWhile isspace (rev s)")
  case Nil
  then show ?thesis by (simp add: rstrip_def)
next
  case (Cons c cs)
  then have "\<not> isspace c" by (metis hd_dropWhile list.sel(1) list.distinct(1))
  with Cons show ?thesis by (simp add: rstrip_def)
qed

lemma lstrip_last: "lstrip s \<noteq> [] \<Longrightarrow> last (lstrip s) = last s"
  unfolding lstrip_def
  by (metis last_appendR takeWhile_dropWhile_id)

lemma strip_idem: "strip (strip s) = strip s"
proof -
  have "rstrip (strip s) = strip s"
  proof (rule rstrip_fixed, cases "strip s = []")
    case False
    then have "last (strip s) = last (rstrip s)" and "rstrip s \<noteq> []"
      using lstrip_last[of "rstrip s"] by (auto simp: strip_def lstrip_def)
    with rstrip_last[of s] show "strip s = [] \<or> \<not> isspace (last (strip s))" by simp
  qed simp
  then have "strip (strip s) = lstrip (strip s)" by (simp add: strip_def[of "strip s"])
  also have "\<dots> = strip s" by (simp add: strip_def[of s] lstrip_def)
  finally show ?thesis .
qed

lemma rstrip_chars_keeps:
  assumes "x \<in> set b" "x \<notin> set chars"
  shows "rstrip_chars chars (a @ b) = a @ rstrip_chars chars b"
  using assms by (simp add: rstrip_chars_def)

section \<open>The guardrail\<close>

lemma scan_keywords_mono:
  "set (fst st) \<subseteq> set (fst (scan_keywords s kws st)) \<and> (snd st \<longrightarrow> snd (scan_keywords s kws st))"
proof (induction kws arbitrary: st)
  case Nil
  then show ?case by simp
next
  case (Cons kw kws)
  obtain ws b where st: "st = (ws, b)" by (cases st)
  show ?case
    using Cons.IH[of "(ws @ [''Detected dangerous keyword: '' @ strip kw], True)"]
          Cons.IH[of "(ws, b)"]
    by (auto simp: st)
qed

lemma scan_keywords_hit:
  "kw \<in> set kws \<Longrightarrow> contains kw s \<Longrightarrow>
     snd (scan_keywords s kws st) \<and>
     (''Detected dangerous keyword: '' @ strip kw) \<in> set (fst (scan_keywords s kws st))"
proof (induction kws arbitrary: st)
  case Nil
  then show ?case by simp
next
  case (Cons k kws)
  obtain ws b where st: "st = (ws, b)" by (cases st)
  show ?case
  proof (cases "k = kw")
    case True
    with Cons.prems
      scan_keywords_mono[of "(ws @ [''Detected dangerous keyword: '' @ strip kw], True)" s kws]
    show ?thesis by (auto simp: st)
  next
    case False
    with Cons.prems have "kw \<in> set kws" by simp
    from Cons.IH[OF this Cons.prems(2)] show ?thesis by (simp add: st)
  qed
qed

text \<open>
  C2, as stated: every statement text with a stray semicolon is blocked. It fails for a
  statement ending in two semicolons, because \<open>rstrip(";")\<close> removes all of them.
\<close>

theorem double_semicolon_not_blocked:
  "stray_semicolon ''SELECT 1;;'' \<and> \<not> block_execution (validate_sql ''SELECT 1;;'' 1)"
  by (simp add: stray_semicolon_def validate_sql_def upper_def strip_def lstrip_def rstrip_def
      isspace_def whitespace_def upper_char_def ascii_lowercase_def ascii_uppercase_def
      startswith_def rstrip_chars_def)

text \<open>
  C2, amended: when the trimmed statement text holds a \<open>;\<close> that is followed, anywhere
  later, by a character other than \<open>;\<close>, the decision blocks and carries the
  multiple-statements warning.
\<close>

theorem multiple_statements_blocked:
  assumes "strip stmt = a @ '';'' @ b" and "\<exists>c\<in>set b. c \<noteq> CHR '';''"
  shows "block_execution (validate_sql stmt cid) \<and>
         multiple_statements_warning \<in> set (warnings (validate_sql stmt cid))"
proof -
  from assms(2) obtain c where c: "c \<in> set b" "c \<noteq> CHR '';''" by blast
  have "strip (upper (strip stmt)) = upper (strip stmt)"
    by (simp add: strip_upper strip_idem)
  also have "\<dots> = (upper a @ '';'') @ upper b"
    by (simp add: assms(1) upper_def upper_char_semicolon)
  finally have eq: "strip (upper (strip stmt)) = (upper a @ '';'') @ upper b" .
  have "upper_char c \<in> set (upper b)" "upper_char c \<notin> set '';''"
    using c by (auto simp: upper_def upper_char_semicolon)
  from rstrip_chars_keeps[OF this, of "upper a @ '';''"]
  have "CHR '';'' \<in> set (rstrip_chars '';'' (strip (upper (strip stmt))))"
    by (simp add: eq)
  then show ?thesis
    by (simp add: validate_sql_def Let_def contains_single)
qed

theorem multiple_statements_blocked_witness:
  "strip ''SELECT 1; DROP TABLE users'' = ''SELECT 1'' @ '';'' @ '' DROP TABLE users''
   \<and> (\<exists>c\<in>set '' DROP TABLE users''. c \<noteq> CHR '';'')
   \<and> block_execution (validate_sql ''SELECT 1; DROP TABLE users'' 7)
   \<and> multiple_statements_warning \<in> set (warnings (validate_sql ''SELECT 1; DROP TABLE users'' 7))"
proof -
  have h1: "strip ''SELECT 1; DROP TABLE users'' = ''SELECT 1'' @ '';'' @ '' DROP TABLE users''"
    by (simp add: strip_def lstrip_def rstrip_def isspace_def whitespace_def)
  have h2: "\<exists>c\<in>set '' DROP TABLE users''. c \<noteq> CHR '';''" by simp
  from multiple_statements_blocked[OF h1 h2, of 7] h1 h2 show ?thesis by blast
qed

text \<open>
  C3, as stated: every statement that does not begin with SELECT and holds a mutating
  keyword as a whole word is blocked. It fails when the keyword is the final token, and
  when the keyword is followed by a tab instead of a space.
\<close>

theorem keyword_without_space_not_blocked:
  "\<not> startswith (upper (strip ''DROP'')) ''SELECT''
   \<and> occurs_as_word ''DROP'' None (upper (strip ''DROP''))
   \<and> \<not> block_execution (validate_sql ''DROP'' 1)
   \<and> occurs_as_word ''DROP'' None
        (upper (strip (''DROP'' @ [CHR 0x09] @ ''TABLE users'')))
   \<and> \<not> block_execution (validate_sql (''DROP'' @ [CHR 0x09] @ ''TABLE users'') 1)"
  by (simp add: validate_sql_def upper_def strip_def lstrip_def rstrip_def
      isspace_def whitespace_def upper_char_def ascii_lowercase_def ascii_uppercase_def
      startswith_def rstrip_chars_def dangerous_keywords_def is_word_char_def digits_def)

text \<open>
  C3, amended: when the trimmed, upper-cased statement does not begin with SELECT and
  contains an entry of the block-list, that is, one of the eleven keywords immediately
  followed by a space, the decision blocks and carries a warning naming the keyword.
\<close>

theorem dangerous_keyword_blocked:
  assumes "\<not> startswith (upper (strip stmt)) ''SELECT''"
      and "kw \<in> set dangerous_keywords"
      and "contains kw (upper (strip stmt))"
  shows "block_execution (validate_sql stmt cid) \<and>
         (''Detected dangerous keyword: '' @ strip kw) \<in> set (warnings (validate_sql stmt cid))"
  using scan_keywords_hit[OF assms(2,3), of "([], False)"] assms(1)
  by (simp add: validate_sql_def Let_def)

theorem dangerous_keyword_blocked_witness:
  "\<not> startswith (upper (strip ''delete from orders'')) ''SELECT''
   \<and> ''DELETE '' \<in> set dangerous_keywords
   \<and> contains ''DELETE '' (upper (strip ''delete from orders''))
   \<and> block_execution (validate_sql ''delete from orders'' 7)
   \<and> ''Detected dangerous keyword: DELETE'' \<in> set (warnings (validate_sql ''delete from orders'' 7))"
proof -
  have u: "upper (strip ''delete from orders'') = ''DELETE FROM ORDERS''"
    by (simp add: upper_def strip_def lstrip_def rstrip_def isspace_def whitespace_def
        upper_char_def ascii_lowercase_def ascii_uppercase_def)
  have h1: "\<not> startswith (upper (strip ''delete from orders'')) ''SELECT''"
    by (simp add: u startswith_def)
  have h2: "''DELETE '' \<in> set dangerous_keywords" by (simp add: dangerous_keywords_def)
  have h3: "contains ''DELETE '' (upper (strip ''delete from orders''))" by (simp add: u)
  have s: "strip ''DELETE '' = ''DELETE''"
    by (simp add: strip_def lstrip_def rstrip_def isspace_def whitespace_def)
  from dangerous_keyword_blocked[OF h1 h2 h3, of 7] h1 h2 h3 show ?thesis by (simp add: s)
qed

section \<open>Properties of the reply sanitizer\<close>

lemma contains_sublist: "contains p s = sublist p s"
  by (induction s) (auto simp: sublist_Cons_right)

lemma sublist_strip: "sublist (strip s) s"
proof -
  have "sublist (rstrip s) s"
    unfolding rstrip_def by (metis sublist_dropWhile sublist_rev_left)
  moreover have "sublist (strip s) (rstrip s)" by (simp add: strip_def lstrip_def)
  ultimately show ?thesis using sublist_order.order_trans by blast
qed

lemma set_strip: "set (strip s) \<subseteq> set s"
  using set_mono_sublist[OF sublist_strip] .

lemma sublist_lower: "sublist a b \<Longrightarrow> sublist (lower a) (lower b)"
  unfolding lower_def by (rule map_mono_sublist)

lemma upper_lower_char: "upper_char (lower_char c) = upper_char c"
  by (auto simp: lower_char_def upper_char_def ascii_lowercase_def ascii_uppercase_def)



lemma lower_char_cases:
  "lower_char c = c \<or> c \<in> set ascii_uppercase"
  by (auto simp: lower_char_def ascii_lowercase_def ascii_uppercase_def)

lemma not_space_semicolon_select:
  "d \<in> set ''select'' \<Longrightarrow> \<not> isspace d \<and> d \<noteq> CHR '';'' \<and> d \<noteq> CHR ''w''"
  by (auto simp: isspace_def whitespace_def)

lemma upper_not_space: "c \<in> set ascii_uppercase \<Longrightarrow> \<not> isspace c \<and> c \<noteq> CHR '';''"
  by (auto simp: ascii_uppercase_def isspace_def whitespace_def)

lemma lower_select_char:
  assumes "lower_char c \<in> set ''select''"
  shows "\<not> isspace c \<and> c \<noteq> CHR '';'' \<and> lower_char c \<noteq> CHR ''w''"
proof -
  from not_space_semicolon_select[OF assms]
  have d: "\<not> isspace (lower_char c)" "lower_char c \<noteq> CHR '';''" "lower_char c \<noteq> CHR ''w''"
    by blast+
  from lower_char_cases[of c] show ?thesis
  proof
    assume "lower_char c = c"
    with d show ?thesis by simp
  next
    assume "c \<in> set ascii_uppercase"
    with upper_not_space[of c] d show ?thesis by simp
  qed
qed

lemma select_prefix_split:
  assumes "prefix ''select'' (lower s)"
  shows "\<exists>h z. s = h @ z \<and> lower h = ''select''"
proof -
  from assms obtain t where t: "lower s = ''select'' @ t" by (auto simp: prefix_def)
  have "lower (take 6 s) = take 6 (lower s)" by (simp add: lower_def take_map)
  also have "\<dots> = ''select''" by (simp add: t)
  finally have "lower (take 6 s) = ''select''" .
  moreover have "s = take 6 s @ drop 6 s" by simp
  ultimately show ?thesis by blast
qed

lemma select_head_chars:
  assumes "lower h = ''select''" and "c \<in> set h"
  shows "\<not> isspace c \<and> c \<noteq> CHR '';'' \<and> lower_char c \<noteq> CHR ''w''"
proof -
  have "lower_char c \<in> lower_char ` set h" using assms(2) by (rule imageI)
  also have "lower_char ` set h = set (lower h)" by (simp add: lower_def)
  finally have "lower_char c \<in> set ''select''" by (simp only: assms(1))
  then show ?thesis by (rule lower_select_char)
qed

lemma select_head_nonempty: "lower h = ''select'' \<Longrightarrow> h \<noteq> []"
  by (auto simp: lower_def)

lemma upper_select_head: "lower h = ''select'' \<Longrightarrow> upper h = ''SELECT''"
proof -
  assume a: "lower h = ''select''"
  have "upper h = upper (lower h)" by (simp add: upper_def lower_def upper_lower_char)
  also have "\<dots> = ''SELECT''"
    by (simp add: a) (simp add: upper_def upper_char_def ascii_lowercase_def ascii_uppercase_def)
  finally show ?thesis .
qed

lemma rstrip_append_head:
  assumes "h \<noteq> []" "\<not> isspace (last h)"
  shows "rstrip (h @ r) = h @ rstrip r"
proof -
  have "dropWhile isspace (rev h) = rev h"
    using assms by (simp add: dropWhile_eq_self_iff hd_rev)
  then show ?thesis
    by (simp add: rstrip_def dropWhile_append)
qed

lemma lstrip_head: "h \<noteq> [] \<Longrightarrow> \<not> isspace (hd h) \<Longrightarrow> lstrip (h @ r) = h @ r"
  by (cases h) (auto simp: lstrip_def)

lemma strip_head:
  assumes "h \<noteq> []" "\<forall>c\<in>set h. \<not> isspace c"
  shows "strip (h @ r) = h @ rstrip r"
  using assms by (simp add: strip_def rstrip_append_head lstrip_head)

lemma set_rstrip: "set (rstrip r) \<subseteq> set r"
  by (auto simp: rstrip_def dest: set_dropWhileD)

lemma rstrip_chars_none: "\<forall>c\<in>set s. c \<notin> set chars \<Longrightarrow> rstrip_chars chars s = s"
  by (cases s rule: rev_cases) (auto simp: rstrip_chars_def)

lemma lazy_until_end_no_semicolon: "CHR '';'' \<notin> set (lazy_until_end s)"
  by (induction s) auto

lemma lower_Cons: "lower (c # cs) = lower_char c # lower cs"
  by (simp add: lower_def)

lemma search_select_None: "search_select t = None \<longleftrightarrow> \<not> contains ''select'' (lower t)"
proof (induction t)
  case Nil
  show ?case by (simp add: lower_def)
next
  case (Cons c cs)
  have "contains ''select'' (lower (c # cs))
        = (prefix ''select'' (lower (c # cs)) \<or> contains ''select'' (lower cs))"
    unfolding lower_Cons contains.simps ..
  with Cons show ?case by (simp del: contains.simps)
qed

lemma search_select_no_semicolon:
  "search_select t = Some g \<Longrightarrow> CHR '';'' \<notin> set g"
proof (induction t)
  case Nil
  then show ?case by simp
next
  case (Cons c cs)
  show ?case
  proof (cases "prefix ''select'' (lower (c # cs))")
    case True
    then obtain h z where hz: "c # cs = h @ z" "lower h = ''select''"
      using select_prefix_split by blast
    have "length (lower h) = 6" by (simp add: hz(2))
    then have len: "length h = 6" by (simp add: lower_def)
    have "take 6 (c # cs) = h" unfolding hz(1) using len by simp
    moreover have "CHR '';'' \<notin> set h" using select_head_chars[OF hz(2)] by blast
    moreover have "search_select (c # cs) = Some (take 6 (c # cs) @ lazy_until_end (drop 6 (c # cs)))"
      using True by (simp del: take_Cons_numeral drop_Cons_numeral)
    ultimately show ?thesis using Cons.prems lazy_until_end_no_semicolon
      by (auto simp del: take_Cons_numeral drop_Cons_numeral search_select.simps)
  next
    case False
    with Cons show ?thesis by simp
  qed
qed

lemma lower_char_semicolon: "lower_char (CHR '';'') = CHR '';''"
  by (simp add: lower_char_def ascii_lowercase_def ascii_uppercase_def)

lemma class_semicolon:
  "\<not> isspace (CHR '';'')" "\<not> is_column_char (CHR '';'')" "\<not> is_letter (CHR '';'')"
  by (simp_all add: isspace_def whitespace_def is_column_char_def is_word_char_def is_letter_def
      ascii_lowercase_def ascii_uppercase_def digits_def)

lemma takeWhile_no_semicolon:
  "\<not> P (CHR '';'') \<Longrightarrow> CHR '';'' \<notin> set (takeWhile P xs)"
  by (auto dest: set_takeWhileD)

lemma where_prefix_no_semicolon:
  assumes "prefix ''where'' (lower s)"
  shows "CHR '';'' \<notin> set (take 5 s)" and "s \<noteq> []" and "lower_char (hd s) = CHR ''w''"
proof -
  from assms obtain t where t: "lower s = ''where'' @ t" by (auto simp: prefix_def)
  have l: "lower (take 5 s) = ''where''"
    using t by (simp add: lower_def take_map[symmetric])
  show "CHR '';'' \<notin> set (take 5 s)"
  proof
    assume "CHR '';'' \<in> set (take 5 s)"
    then have "lower_char (CHR '';'') \<in> lower_char ` set (take 5 s)" by (rule imageI)
    also have "lower_char ` set (take 5 s) = set (lower (take 5 s))" by (simp add: lower_def)
    finally show False by (simp add: l lower_char_semicolon)
  qed
  from t show "s \<noteq> []" by (auto simp: lower_def)
  with t show "lower_char (hd s) = CHR ''w''" by (cases s) (auto simp: lower_def)
qed

lemma match_where_Some:
  assumes "match_where s = Some (col, val, n)"
  shows "0 < n \<and> n \<le> length s \<and> CHR '';'' \<notin> set (take n s)
         \<and> CHR '';'' \<notin> set col \<and> CHR '';'' \<notin> set val \<and> lower_char (hd s) = CHR ''w''"
proof -
  have P: "prefix ''where'' (lower s)"
    using assms by (auto simp: match_where_def split: if_splits)
  define r1 where "r1 = drop 5 s"
  define r2 where "r2 = dropWhile isspace r1"
  define r2' where "r2' = dropWhile is_column_char r2"
  from assms P obtain r4 r5 r6 where
    c: "col = takeWhile is_column_char r2"
    and e3: "dropWhile isspace r2' = CHR ''='' # r4"
    and e4: "dropWhile isspace r4 = CHR 0x27 # r5"
    and v: "val = takeWhile is_letter r5"
    and e5: "dropWhile is_letter r5 = CHR 0x27 # r6"
    and n: "n = length s - length r6"
    unfolding match_where_def Let_def r1_def r2_def r2'_def
    by (simp split: if_splits list.splits)
  define pre where "pre = take 5 s @ takeWhile isspace r1 @ col @ takeWhile isspace r2'
      @ [CHR ''=''] @ takeWhile isspace r4 @ [CHR 0x27] @ val @ [CHR 0x27]"
  have "r5 = val @ CHR 0x27 # r6" using e5 v by (metis takeWhile_dropWhile_id)
  moreover have "r4 = takeWhile isspace r4 @ CHR 0x27 # r5" using e4 by (metis takeWhile_dropWhile_id)
  moreover have "r2' = takeWhile isspace r2' @ CHR ''='' # r4" using e3 by (metis takeWhile_dropWhile_id)
  moreover have "r2 = col @ r2'" using c r2'_def by simp
  moreover have "r1 = takeWhile isspace r1 @ r2" using r2_def by simp
  moreover have "s = take 5 s @ r1" using r1_def by simp
  ultimately have s: "s = pre @ r6" unfolding pre_def by (metis append.assoc append_Cons append_Nil)
  have len: "n = length pre" using n by (subst (asm) s) simp
  have tk: "take n s = pre" by (subst s) (simp add: len)
  have "CHR '';'' \<notin> set pre"
    unfolding pre_def c v
    using where_prefix_no_semicolon(1)[OF P] class_semicolon
    by (simp add: takeWhile_no_semicolon)
  moreover have "0 < n" unfolding len pre_def by simp
  moreover have "n \<le> length s" using n by simp
  moreover have "CHR '';'' \<notin> set col" "CHR '';'' \<notin> set val"
    unfolding c v using class_semicolon by (simp_all add: takeWhile_no_semicolon)
  ultimately show ?thesis using tk where_prefix_no_semicolon(3)[OF P] by simp
qed

lemma match_where_not_w: "lower_char c \<noteq> CHR ''w'' \<Longrightarrow> match_where (c # cs) = None"
  by (simp add: match_where_def lower_def)

lemma repl_no_semicolon:
  "CHR '';'' \<notin> set col \<Longrightarrow> CHR '';'' \<notin> set val \<Longrightarrow> CHR '';'' \<notin> set (repl col val)"
  by (simp add: repl_def)

lemma fix_count:
  "filter (\<lambda>c. c = CHR '';'') (fix_case_insensitive s) = filter (\<lambda>c. c = CHR '';'') s"
proof (induction s rule: fix_case_insensitive.induct)
  case 1
  show ?case by simp
next
  case (2 c cs)
  show ?case
  proof (cases "match_where (c # cs)")
    case None
    with "2.IH"(1) show ?thesis by simp
  next
    case (Some m)
    obtain col val n where m: "m = (col, val, n)" by (cases m)
    from match_where_Some[OF Some[unfolded m]]
    have n: "0 < n" and tk: "CHR '';'' \<notin> set (take n (c # cs))"
      and cv: "CHR '';'' \<notin> set col" "CHR '';'' \<notin> set val" by simp_all
    have dr: "drop n (c # cs) = drop (n - 1) cs" using n by (cases n) simp_all
    have "filter (\<lambda>c. c = CHR '';'') (c # cs)
          = filter (\<lambda>c. c = CHR '';'') (take n (c # cs)) @ filter (\<lambda>c. c = CHR '';'') (drop n (c # cs))"
      by (metis append_take_drop_id filter_append)
    also have "filter (\<lambda>c. c = CHR '';'') (take n (c # cs)) = []"
      using tk by (auto simp: filter_empty_conv)
    finally have a: "filter (\<lambda>c. c = CHR '';'') (c # cs) = filter (\<lambda>c. c = CHR '';'') (drop (n - 1) cs)"
      by (simp add: dr)
    have b: "filter (\<lambda>c. c = CHR '';'') (repl col val) = []"
      using repl_no_semicolon[OF cv] by (auto simp: filter_empty_conv)
    have "fix_case_insensitive (c # cs) = repl col val @ fix_case_insensitive (drop (n - 1) cs)"
      using Some m by simp
    then show ?thesis using "2.IH"(2)[OF Some m[symmetric] refl] a b by simp
  qed
qed

lemma fix_last:
  "s \<noteq> [] \<Longrightarrow> last s = CHR '';'' \<Longrightarrow>
     fix_case_insensitive s \<noteq> [] \<and> last (fix_case_insensitive s) = CHR '';''"
proof (induction s rule: fix_case_insensitive.induct)
  case 1
  then show ?case by simp
next
  case (2 c cs)
  show ?case
  proof (cases "match_where (c # cs)")
    case None
    show ?thesis
    proof (cases "cs = []")
      case True
      with None "2.prems" show ?thesis by simp
    next
      case False
      with "2.prems" have "last cs = CHR '';''" by simp
      from "2.IH"(1)[OF None False this] None show ?thesis by simp
    qed
  next
    case (Some m)
    obtain col val n where m: "m = (col, val, n)" by (cases m)
    from match_where_Some[OF Some[unfolded m]]
    have n: "0 < n" "n \<le> length (c # cs)" and tk: "CHR '';'' \<notin> set (take n (c # cs))" by simp_all
    have dr: "drop n (c # cs) = drop (n - 1) cs" using n by (cases n) simp_all
    have ne: "drop n (c # cs) \<noteq> []"
    proof
      assume "drop n (c # cs) = []"
      then have "take n (c # cs) = c # cs" by simp
      with tk "2.prems"(2) show False by (metis last_in_set list.distinct(1))
    qed
    then have "last (drop n (c # cs)) = CHR '';''" using "2.prems"(2) by (simp add: last_drop)
    from "2.IH"(2)[OF Some m[symmetric] refl ne[unfolded dr] this[unfolded dr]]
    show ?thesis using Some m by simp
  qed
qed

lemma fix_head:
  "\<forall>c\<in>set h. lower_char c \<noteq> CHR ''w'' \<Longrightarrow>
     fix_case_insensitive (h @ z) = h @ fix_case_insensitive z"
  by (induction h) (simp_all add: match_where_not_w)

lemma single_final:
  assumes "filter (\<lambda>c. c = x) s = [x]" and "last s = x"
  shows "\<exists>b. s = b @ [x] \<and> x \<notin> set b"
proof -
  from assms(1) have ne: "s \<noteq> []" by auto
  then have s: "s = butlast s @ [x]" using assms(2) by (metis append_butlast_last_id)
  have "filter (\<lambda>c. c = x) (butlast s) @ [x] = [x]"
    using assms(1) by (subst (asm) s) simp
  then have "x \<notin> set (butlast s)" by (auto simp: filter_empty_conv)
  with s show ?thesis by blast
qed

lemma rstrip_chars_snoc: "c \<in> set chars \<Longrightarrow> rstrip_chars chars (x @ [c]) = rstrip_chars chars x"
  by (simp add: rstrip_chars_def)

lemma extracted_no_semicolon:
  "CHR '';'' \<notin> set (case search_select t of
                        Some g \<Rightarrow> strip g
                      | None \<Rightarrow> strip (takeWhile (\<lambda>c. c \<noteq> CHR '';'') t))"
proof (cases "search_select t")
  case None
  have "CHR '';'' \<notin> set (takeWhile (\<lambda>c. c \<noteq> CHR '';'') t)"
    by (auto dest: set_takeWhileD)
  with set_strip[of "takeWhile (\<lambda>c. c \<noteq> CHR '';'') t"] None show ?thesis by auto
next
  case (Some g)
  with search_select_no_semicolon[OF Some] set_strip[of g] show ?thesis by auto
qed

lemma fallback_fixed: "fix_case_insensitive ''SELECT 1;'' = ''SELECT 1;''"
proof -
  have "\<forall>c\<in>set ''SELECT 1;''. lower_char c \<noteq> CHR ''w''"
    by (simp add: lower_char_def ascii_lowercase_def ascii_uppercase_def)
  from fix_head[OF this, of "[]"] show ?thesis by simp
qed

lemma finish_shape:
  assumes "CHR '';'' \<notin> set x"
  shows "\<exists>h b. fix_case_insensitive
                 (if \<not> startswith (lower x) ''select'' then ''SELECT 1;''
                  else rstrip_chars '';'' x @ '';'') = h @ b @ '';''
               \<and> lower h = ''select'' \<and> CHR '';'' \<notin> set b"
proof (cases "startswith (lower x) ''select''")
  case False
  have "''SELECT 1;'' = ''SELECT'' @ '' 1'' @ '';''" by simp
  moreover have "lower ''SELECT'' = ''select''"
    by (simp add: lower_def lower_char_def ascii_lowercase_def ascii_uppercase_def)
  moreover have "CHR '';'' \<notin> set '' 1''" by simp
  ultimately show ?thesis using False fallback_fixed
    by (intro exI[of _ "''SELECT''"] exI[of _ "'' 1''"]) simp
next
  case True
  then have "prefix ''select'' (lower x)" by (simp add: startswith_def)
  from select_prefix_split[OF this] obtain h z where hz: "x = h @ z" "lower h = ''select''"
    by blast
  have nw: "\<forall>c\<in>set h. lower_char c \<noteq> CHR ''w''"
    using select_head_chars[OF hz(2)] by blast
  have z: "CHR '';'' \<notin> set z" using assms hz(1) by simp
  have "rstrip_chars '';'' x = x"
    using assms by (intro rstrip_chars_none) auto
  then have "fix_case_insensitive (rstrip_chars '';'' x @ '';'')
             = h @ fix_case_insensitive (z @ '';'')"
    using fix_head[OF nw, of "z @ '';''"] by (simp add: hz(1))
  moreover have "filter (\<lambda>c. c = CHR '';'') (fix_case_insensitive (z @ '';'')) = '';''"
    using z by (auto simp: fix_count filter_empty_conv)
  moreover have "last (fix_case_insensitive (z @ '';'')) = CHR '';''"
    using fix_last[of "z @ '';''"] by simp
  ultimately obtain b where "fix_case_insensitive (rstrip_chars '';'' x @ '';'') = h @ b @ '';''"
      "CHR '';'' \<notin> set b"
    using single_final[of "CHR '';''" "fix_case_insensitive (z @ '';'')"] by auto
  with True hz(2) show ?thesis by auto
qed

lemma generate_sql_shape:
  "\<exists>h b. sql (generate_sql content start now) = h @ b @ '';''
         \<and> lower h = ''select'' \<and> CHR '';'' \<notin> set b"
proof -
  let ?t = "replace_backticks (remove_fences (strip (case content of None \<Rightarrow> [] | Some c \<Rightarrow> c)))"
  let ?x = "case search_select ?t of Some g \<Rightarrow> strip g
            | None \<Rightarrow> strip (takeWhile (\<lambda>c. c \<noteq> CHR '';'') ?t)"
  have "sql (generate_sql content start now)
        = fix_case_insensitive (if \<not> startswith (lower ?x) ''select'' then ''SELECT 1;''
                                else rstrip_chars '';'' ?x @ '';'')"
    by (simp add: generate_sql_def Let_def)
  with finish_shape[OF extracted_no_semicolon[of ?t]] show ?thesis by simp
qed

lemma shape_startswith: "lower h = ''select'' \<Longrightarrow> startswith (lower (h @ r)) ''select''"
  by (simp add: startswith_def lower_def)

lemma shape_strip:
  assumes "lower h = ''select''"
  shows "strip (h @ b @ '';'') = h @ b @ '';''"
proof -
  have "rstrip (b @ '';'') = b @ '';''"
    by (rule rstrip_fixed) (simp add: class_semicolon)
  moreover have "h \<noteq> []" "\<forall>c\<in>set h. \<not> isspace c"
    using select_head_nonempty[OF assms] select_head_chars[OF assms] by blast+
  ultimately show ?thesis using strip_head[of h "b @ '';''"] by simp
qed

lemma shape_validates:
  assumes "lower h = ''select''" and "CHR '';'' \<notin> set b"
  shows "startswith (upper (strip (h @ b @ '';''))) ''SELECT''"
    and "validate_sql (h @ b @ '';'') cid
         = \<lparr> is_safe = True, warnings = [], block_execution = False \<rparr>"
proof -
  let ?S = "h @ b @ '';''"
  have u: "upper (strip ?S) = ''SELECT'' @ upper b @ '';''"
    using upper_select_head[OF assms(1)]
    by (simp add: shape_strip[OF assms(1)]) (simp add: upper_def upper_char_semicolon)
  show sw: "startswith (upper (strip ?S)) ''SELECT''"
    by (simp add: u startswith_def)
  have "strip (upper (strip ?S)) = upper (strip ?S)"
    by (simp add: strip_upper strip_idem)
  then have "rstrip_chars '';'' (strip (upper (strip ?S)))
             = rstrip_chars '';'' ((''SELECT'' @ upper b) @ '';'')"
    by (simp add: u)
  also have "\<dots> = rstrip_chars '';'' (''SELECT'' @ upper b)"
    by (rule rstrip_chars_snoc) simp
  also have "\<dots> = ''SELECT'' @ upper b"
    using assms(2) by (intro rstrip_chars_none) (auto simp: upper_def upper_char_semicolon)
  finally have r: "rstrip_chars '';'' (strip (upper (strip ?S))) = ''SELECT'' @ upper b" .
  have "CHR '';'' \<notin> set (upper b)"
  proof
    assume "CHR '';'' \<in> set (upper b)"
    then obtain x where x: "x \<in> set b" "upper_char x = CHR '';''" by (auto simp: upper_def)
    then have "x = CHR '';''" by (simp add: upper_char_semicolon)
    with x(1) assms(2) show False by simp
  qed
  then have "CHR '';'' \<notin> set (''SELECT'' @ upper b)" by simp
  then have nc: "\<not> contains '';'' (''SELECT'' @ upper b)"
    by (simp only: contains_single not_False_eq_True)
  have "\<not> contains '';'' (rstrip_chars '';'' (strip (upper (strip ?S))))"
    unfolding r by (rule nc)
  with sw show "validate_sql ?S cid = \<lparr> is_safe = True, warnings = [], block_execution = False \<rparr>"
    by (simp add: validate_sql_def Let_def)
qed

text \<open>
  C6: when the reply, after fenced blocks and backticks are removed, holds no
  case-insensitive occurrence of \<open>select\<close>, \<open>generate_sql\<close> returns the statement
  \<open>SELECT 1;\<close>; and every returned statement is some text without \<open>;\<close> followed by
  exactly one \<open>;\<close>. The sanitizer is a total function of the reply: it has no failing
  branch.
\<close>

theorem no_select_gives_fallback:
  "(\<not> contains ''select''
        (lower (replace_backticks (remove_fences
           (strip (case content of None \<Rightarrow> [] | Some c \<Rightarrow> c)))))
     \<longrightarrow> sql (generate_sql content start now) = ''SELECT 1;'')
   \<and> (\<exists>body. sql (generate_sql content start now) = body @ '';'' \<and> CHR '';'' \<notin> set body)"
proof
  let ?t = "replace_backticks (remove_fences (strip (case content of None \<Rightarrow> [] | Some c \<Rightarrow> c)))"
  show "\<not> contains ''select'' (lower ?t) \<longrightarrow> sql (generate_sql content start now) = ''SELECT 1;''"
  proof
    assume ns: "\<not> contains ''select'' (lower ?t)"
    then have none: "search_select ?t = None" by (simp add: search_select_None)
    let ?x = "strip (takeWhile (\<lambda>c. c \<noteq> CHR '';'') ?t)"
    have "sublist ?x ?t"
      using sublist_strip[of "takeWhile (\<lambda>c. c \<noteq> CHR '';'') ?t"] sublist_takeWhile
        sublist_order.order_trans by blast
    then have sl: "sublist (lower ?x) (lower ?t)" by (rule sublist_lower)
    have "\<not> startswith (lower ?x) ''select''"
    proof
      assume "startswith (lower ?x) ''select''"
      then have "sublist ''select'' (lower ?x)" by (simp add: startswith_def)
      with sl have "sublist ''select'' (lower ?t)" using sublist_order.order_trans by blast
      with ns show False by (simp add: contains_sublist)
    qed
    then show "sql (generate_sql content start now) = ''SELECT 1;''"
      unfolding generate_sql_def Let_def
      by (simp add: none fallback_fixed del: fix_case_insensitive.simps)
  qed
next
  from generate_sql_shape[of content start now] obtain h b where
    s: "sql (generate_sql content start now) = h @ b @ '';''" "lower h = ''select''"
       "CHR '';'' \<notin> set b" by blast
  have "CHR '';'' \<notin> set h" using select_head_chars[OF s(2)] by blast
  with s show "\<exists>body. sql (generate_sql content start now) = body @ '';'' \<and> CHR '';'' \<notin> set body"
    by (intro exI[of _ "h @ b"]) simp
qed

theorem no_select_gives_fallback_witness:
  "\<not> contains ''select''
        (lower (replace_backticks (remove_fences
           (strip (case Some ''I cannot answer that.'' of None \<Rightarrow> [] | Some c \<Rightarrow> c)))))
   \<and> sql (generate_sql (Some ''I cannot answer that.'') 0 1) = ''SELECT 1;''"
proof -
  have h: "\<not> contains ''select''
        (lower (replace_backticks (remove_fences
           (strip (case Some ''I cannot answer that.'' of None \<Rightarrow> [] | Some c \<Rightarrow> c)))))"
    by code_simp
  from no_select_gives_fallback[of "Some ''I cannot answer that.''" 0 1] h show ?thesis by blast
qed

text \<open>
  C10: for every reply, the returned statement begins, case-insensitively, with
  \<open>select\<close> and is a text without \<open>;\<close> followed by one final \<open>;\<close>; hence the guardrail
  finds that it begins with SELECT, skips the keyword scan, and does not block it.
\<close>

theorem generated_statement_shape:
  "startswith (lower (sql (generate_sql content start now))) ''select''
   \<and> (\<exists>body. sql (generate_sql content start now) = body @ '';'' \<and> CHR '';'' \<notin> set body)
   \<and> startswith (upper (strip (sql (generate_sql content start now)))) ''SELECT''
   \<and> \<not> block_execution (validate_sql (sql (generate_sql content start now)) cid)"
proof -
  from generate_sql_shape[of content start now] obtain h b where
    s: "sql (generate_sql content start now) = h @ b @ '';''" "lower h = ''select''"
       "CHR '';'' \<notin> set b" by blast
  have "CHR '';'' \<notin> set h" using select_head_chars[OF s(2)] by blast
  then have "\<exists>body. sql (generate_sql content start now) = body @ '';'' \<and> CHR '';'' \<notin> set body"
    using s by (intro exI[of _ "h @ b"]) simp
  moreover have "startswith (lower (sql (generate_sql content start now))) ''select''"
    using shape_startswith[OF s(2)] by (simp add: s(1))
  moreover note shape_validates(1)[OF s(2,3)] shape_validates(2)[OF s(2,3), of cid]
  ultimately show ?thesis by (simp add: s(1))
qed

theorem generated_statement_shape_witness:
  "startswith (lower (sql (generate_sql (Some ''drop table users'') 0 1))) ''select''
   \<and> (\<exists>body. sql (generate_sql (Some ''drop table users'') 0 1) = body @ '';''
              \<and> CHR '';'' \<notin> set body)
   \<and> startswith (upper (strip (sql (generate_sql (Some ''drop table users'') 0 1)))) ''SELECT''
   \<and> \<not> block_execution (validate_sql (sql (generate_sql (Some ''drop table users'') 0 1)) 7)"
  by (rule generated_statement_shape)

section \<open>The executor\<close>

lemma fetch_rows_error:
  "rs = [] \<or> count + int (length rs) < max_rows \<Longrightarrow>
     fetch_rows cols max_rows rs (Some msg) rws count = Inl msg"
proof (induction rs arbitrary: rws count)
  case Nil
  show ?case by simp
next
  case (Cons r rest)
  then have lt: "count + 1 + int (length rest) < max_rows" by simp
  then have "\<not> count + 1 \<ge> max_rows" by simp
  moreover have "rest = [] \<or> (count + 1) + int (length rest) < max_rows" using lt by simp
  ultimately show ?case using Cons.IH[of "count + 1"] by (simp add: Let_def)
qed

lemma fetch_rows_length:
  "fetch_rows cols max_rows rs err rws count = Inr out \<Longrightarrow>
     count = int (length rws) \<Longrightarrow> count < max_rows \<Longrightarrow> int (length out) \<le> max_rows"
proof (induction rs arbitrary: rws count)
  case Nil
  then show ?case by (cases err) auto
next
  case (Cons r rest)
  show ?case
  proof (cases "count + 1 \<ge> max_rows")
    case True
    with Cons.prems show ?thesis by (auto simp: Let_def)
  next
    case False
    with Cons.prems have "fetch_rows cols max_rows rest err (rws @ [row_dict cols r]) (count + 1) = Inr out"
      by (simp add: Let_def)
    from Cons.IH[OF this] Cons.prems(2) False show ?thesis by simp
  qed
qed

lemma fetch_rows_truncates:
  "count = int (length rws) \<Longrightarrow> count < max_rows \<Longrightarrow> max_rows - count \<le> int (length rs) \<Longrightarrow>
     fetch_rows cols max_rows rs err rws count
       = Inr (rws @ map (row_dict cols) (take (nat (max_rows - count)) rs))"
proof (induction rs arbitrary: rws count)
  case Nil
  then show ?case by simp
next
  case (Cons r rest)
  show ?case
  proof (cases "count + 1 \<ge> max_rows")
    case True
    with Cons.prems have "max_rows - count = 1" by simp
    with True show ?thesis by (simp add: Let_def)
  next
    case False
    then have n: "nat (max_rows - count) = Suc (nat (max_rows - (count + 1)))" by simp
    have "fetch_rows cols max_rows rest err (rws @ [row_dict cols r]) (count + 1)
          = Inr ((rws @ [row_dict cols r]) @ map (row_dict cols) (take (nat (max_rows - (count + 1))) rest))"
      using Cons.prems False by (intro Cons.IH) simp_all
    with False show ?thesis by (simp add: Let_def n)
  qed
qed

text \<open>
  C4, as stated: on every database-engine error during \<open>execute_sql\<close> the call returns
  the failure response and does not raise. It fails for an error of the application
  database: the lookup of the connection string runs before the \<open>try\<close> block, so a
  \<open>SQLAlchemyError\<close> of its query leaves \<open>execute_sql\<close> as an exception.
\<close>

theorem lookup_error_is_raised:
  "execute_sql missing_table one_row_engine ''SELECT 1'' 1 30 1000 0 1
   = Inl (SQLAlchemyError ''no such table: db_connections'')"
  by (simp add: execute_sql_def get_connection_string_def missing_table_def)

text \<open>
  C4, amended: when the lookup has returned the connection string and the target database
  raises an engine error, while creating the engine, connecting or executing, or while
  fetching before the row cap is reached, \<open>execute_sql\<close> returns (it does not raise) the
  failure response: no rows, no columns, row count 0, the error text, the time elapsed up
  to the failure, and the submitted statement verbatim in \<open>sql_executed\<close>.
\<close>

theorem engine_error_is_returned:
  assumes "get_connection_string db_connections connection_id = Inr conn_str"
      and "engine conn_str stmt = EngineError msg
           \<or> (\<exists>keys rs. engine conn_str stmt = RowStream keys rs (Some msg)
                         \<and> (rs = [] \<or> int (length rs) < max_rows))"
  shows "execute_sql db_connections engine stmt connection_id timeout_seconds max_rows start now
         = Inr \<lparr> success = False, rows = [], columns = [], row_count = 0,
                 execution_time_ms = elapsed_ms start now, sql_executed = stmt,
                 execution_warnings = [], error = Some msg \<rparr>"
  using assms(2)
proof
  assume "engine conn_str stmt = EngineError msg"
  with assms(1) show ?thesis by (simp add: execute_sql_def failure_response_def)
next
  assume "\<exists>keys rs. engine conn_str stmt = RowStream keys rs (Some msg)
                    \<and> (rs = [] \<or> int (length rs) < max_rows)"
  then obtain keys rs where e: "engine conn_str stmt = RowStream keys rs (Some msg)"
    and rs: "rs = [] \<or> 0 + int (length rs) < max_rows" by auto
  from fetch_rows_error[OF rs] e assms(1) show ?thesis
    by (simp add: execute_sql_def failure_response_def)
qed

theorem engine_error_is_returned_witness:
  "get_connection_string one_connection 1 = Inr ''sqlite://''
   \<and> failing_engine ''sqlite://'' ''SELECT * FROM orders'' = EngineError ''no such table: orders''
   \<and> execute_sql one_connection failing_engine ''SELECT * FROM orders'' 1 30 1000 2 (5 / 2)
       = Inr \<lparr> success = False, rows = [], columns = [], row_count = 0,
               execution_time_ms = 500, sql_executed = ''SELECT * FROM orders'',
               execution_warnings = [], error = Some ''no such table: orders'' \<rparr>"
proof -
  have h1: "get_connection_string one_connection 1 = Inr ''sqlite://''"
    by (simp add: get_connection_string_def one_connection_def)
  have h2: "failing_engine ''sqlite://'' ''SELECT * FROM orders'' = EngineError ''no such table: orders''"
    by (simp add: failing_engine_def)
  have t: "elapsed_ms 2 (5 / 2) = 500" by (simp add: elapsed_ms_def py_int_def)
  have h3: "failing_engine ''sqlite://'' ''SELECT * FROM orders'' = EngineError ''no such table: orders''
            \<or> (\<exists>keys rs. failing_engine ''sqlite://'' ''SELECT * FROM orders''
                            = RowStream keys rs (Some ''no such table: orders'')
                          \<and> (rs = [] \<or> int (length rs) < 1000))"
    using h2 by (rule disjI1)
  from engine_error_is_returned[of one_connection 1 "''sqlite://''" failing_engine
      "''SELECT * FROM orders''" "''no such table: orders''" 1000 30 2 "5 / 2", OF h1 h3] h1 h2 t
  show ?thesis by simp
qed

text \<open>
  C7, as stated: every successful execution has \<open>row_count \<le> max_rows\<close>. It fails for
  \<open>max_rows = 0\<close>: the loop compares the count with the cap only after it has appended a
  row, so a non-empty result yields one row.
\<close>

theorem zero_max_rows_returns_a_row:
  "\<not> isl (execute_sql one_connection one_row_engine ''SELECT 1'' 1 30 0 0 1)
   \<and> success (projr (execute_sql one_connection one_row_engine ''SELECT 1'' 1 30 0 0 1))
   \<and> row_count (projr (execute_sql one_connection one_row_engine ''SELECT 1'' 1 30 0 0 1)) = 1
   \<and> \<not> row_count (projr (execute_sql one_connection one_row_engine ''SELECT 1'' 1 30 0 0 1)) \<le> 0"
  by (simp add: execute_sql_def get_connection_string_def one_connection_def one_row_engine_def
      success_response_def Let_def)

text \<open>
  C7, amended: for \<open>max_rows \<ge> 1\<close>, every successful execution has
  \<open>row_count = len(rows)\<close> and \<open>row_count \<le> max_rows\<close>; and when the result set delivers
  at least \<open>max_rows\<close> rows, the execution succeeds with exactly the first \<open>max_rows\<close> rows,
  so \<open>row_count = max_rows\<close>.
\<close>

theorem row_count_bounded:
  assumes "1 \<le> max_rows"
  shows "(execute_sql db_connections engine stmt connection_id timeout_seconds max_rows start now = Inr r
            \<and> success r
          \<longrightarrow> row_count r = int (length (rows r)) \<and> row_count r \<le> max_rows)
       \<and> (get_connection_string db_connections connection_id = Inr conn_str
            \<and> engine conn_str stmt = RowStream keys rs err \<and> max_rows \<le> int (length rs)
          \<longrightarrow> execute_sql db_connections engine stmt connection_id timeout_seconds max_rows start now
                = Inr (success_response stmt (elapsed_ms start now) keys
                         (map (row_dict keys) (take (nat max_rows) rs)))
              \<and> row_count (success_response stmt (elapsed_ms start now) keys
                         (map (row_dict keys) (take (nat max_rows) rs))) = max_rows)"
proof (intro conjI impI)
  assume a: "execute_sql db_connections engine stmt connection_id timeout_seconds max_rows start now = Inr r
             \<and> success r"
  then obtain conn_str' where c: "get_connection_string db_connections connection_id = Inr conn_str'"
    by (auto simp: execute_sql_def split: sum.splits)
  show "row_count r = int (length (rows r))"
    using a c by (auto simp: execute_sql_def failure_response_def success_response_def
        split: db_outcome.splits sum.splits)
  show "row_count r \<le> max_rows"
  proof (cases "engine conn_str' stmt")
    case (RowStream keys' rs' err')
    show ?thesis
    proof (cases "fetch_rows keys' max_rows rs' err' [] 0")
      case (Inl msg)
      with a c RowStream show ?thesis by (auto simp: execute_sql_def failure_response_def)
    next
      case (Inr out)
      from fetch_rows_length[OF Inr] assms have "int (length out) \<le> max_rows" by simp
      with a c RowStream Inr show ?thesis by (auto simp: execute_sql_def success_response_def)
    qed
  qed (use a c assms in \<open>auto simp: execute_sql_def failure_response_def success_response_def\<close>)
next
  assume b: "get_connection_string db_connections connection_id = Inr conn_str
            \<and> engine conn_str stmt = RowStream keys rs err \<and> max_rows \<le> int (length rs)"
  have f: "fetch_rows keys max_rows rs err [] 0 = Inr ([] @ map (row_dict keys) (take (nat (max_rows - 0)) rs))"
    using assms b by (intro fetch_rows_truncates) simp_all
  with b show "execute_sql db_connections engine stmt connection_id timeout_seconds max_rows start now
                = Inr (success_response stmt (elapsed_ms start now) keys
                         (map (row_dict keys) (take (nat max_rows) rs)))"
    by (simp add: execute_sql_def)
  show "row_count (success_response stmt (elapsed_ms start now) keys
                         (map (row_dict keys) (take (nat max_rows) rs))) = max_rows"
  proof -
    from assms b have "min (length rs) (nat max_rows) = nat max_rows" by linarith
    with assms show ?thesis by (simp add: success_response_def)
  qed
qed

theorem row_count_bounded_witness:
  "(1::int) \<le> 2
   \<and> execute_sql one_connection three_row_engine ''SELECT n FROM t'' 1 30 2 0 1
       = Inr (success_response ''SELECT n FROM t'' (elapsed_ms 0 1) [''n'']
                (map (row_dict [''n'']) (take (nat 2) [[1], [2], [3]])))
   \<and> success (success_response ''SELECT n FROM t'' (elapsed_ms 0 1) [''n'']
                (map (row_dict [''n'']) (take (nat 2) [[1::int], [2], [3]])))
   \<and> row_count (success_response ''SELECT n FROM t'' (elapsed_ms 0 1) [''n'']
                (map (row_dict [''n'']) (take (nat 2) [[1::int], [2], [3]]))) = 2
   \<and> row_count (success_response ''SELECT n FROM t'' (elapsed_ms 0 1) [''n'']
                (map (row_dict [''n'']) (take (nat 2) [[1::int], [2], [3]]))) \<le> 2"
proof -
  let ?r = "success_response ''SELECT n FROM t'' (elapsed_ms 0 1) [''n'']
                (map (row_dict [''n'']) (take (nat 2) [[1::int], [2], [3]]))"
  have a: "(1::int) \<le> 2" by simp
  have c: "get_connection_string one_connection 1 = Inr ''sqlite://''"
    by (simp add: get_connection_string_def one_connection_def)
  have e: "three_row_engine ''sqlite://'' ''SELECT n FROM t'' = RowStream [''n''] [[1], [2], [3]] None"
    by (simp add: three_row_engine_def)
  have l: "(2::int) \<le> int (length [[1::int], [2], [3]])" by simp
  have s: "success ?r" by (simp add: success_response_def)
  note t = row_count_bounded[OF a, where db_connections = one_connection
      and engine = three_row_engine and stmt = "''SELECT n FROM t''" and connection_id = 1
      and timeout_seconds = 30 and start = 0 and now = 1 and r = ?r
      and conn_str = "''sqlite://''" and keys = "[''n'']" and rs = "[[1], [2], [3]]"
      and err = None]
  from t c e l have x: "execute_sql one_connection three_row_engine ''SELECT n FROM t'' 1 30 2 0 1
       = Inr ?r" and y: "row_count ?r = 2" by blast+
  from t x s have "row_count ?r \<le> 2" by blast
  with a x s y show ?thesis by blast
qed

text \<open>
  C8: \<open>execute_sql\<close> never hands \<open>timeout_seconds\<close> to the engine, the connection or
  the statement; two calls that differ only in the timeout give the same result.
\<close>

theorem timeout_is_ignored:
  "execute_sql db_connections engine stmt connection_id timeout_a max_rows start now
   = execute_sql db_connections engine stmt connection_id timeout_b max_rows start now"
  by (simp add: execute_sql_def)

section \<open>The generate route\<close>

text \<open>
  The route validates the statement the generation service returned. The statements of
  \<open>generate_sql\<close> are all accepted by the guardrail, so with this service the route hands
  the response back unchanged and its branch for a blocked statement is never taken.
\<close>

lemma generated_statement_passes_route:
  "generate_sql_route str (Inr (generate_sql content start now)) connection_id
   = Inr (generate_sql content start now)"
proof -
  from generate_sql_shape[of content start now] obtain h b where
    s: "sql (generate_sql content start now) = h @ b @ '';''" "lower h = ''select''"
       "CHR '';'' \<notin> set b" by blast
  from shape_validates(2)[OF s(2,3), of connection_id]
  have "is_safe (validate_sql (sql (generate_sql content start now)) connection_id)"
    by (simp add: s(1))
  then show ?thesis by (simp add: generate_sql_route_def Let_def)
qed

text \<open>
  For a service that returned a statement the guardrail blocks, the route would raise its
  \<open>HTTPException\<close> with status 400 inside its own \<open>try\<close> block, and the handler would
  catch it and raise status 500.
\<close>

lemma block_is_wrapped:
  assumes "block_execution (validate_sql (sql result) connection_id)"
  shows "generate_sql_route str (Inr result) connection_id
         = Inl (HTTPException 500
                 (''Failed to generate SQL: ''
                    @ str (HTTPException 400
                        (''SQL blocked by guardrails: ''
                           @ join ''; '' (warnings (validate_sql (sql result) connection_id))))))"
proof -
  have "is_safe (validate_sql (sql result) connection_id)
        = (\<not> block_execution (validate_sql (sql result) connection_id))"
    by (simp add: validate_sql_def Let_def)
  with assms show ?thesis by (simp add: generate_sql_route_def Let_def)
qed

section \<open>Schema normalization\<close>

text \<open>
  What the check in \<open>_normalize_with_ai\<close> does guarantee, for a raw schema as introspection
  builds it: a reply that cannot be parsed gives the raw structure back, and every
  returned snapshot is either the raw structure or a parsed reply whose table names, as a
  set, are those of the raw schema.
\<close>

lemma exn_bind_Inr [simp]: "exn_bind (Inr x) f = f x"
  by (simp add: exn_bind_def)

lemma exn_bind_Inl [simp]: "exn_bind (Inl e) f = Inl e"
  by (simp add: exn_bind_def)

lemma exn_bind_eq_Inr:
  "exn_bind m f = Inr y \<longleftrightarrow> (\<exists>x. m = Inr x \<and> f x = Inr y)"
  by (cases m) simp_all

lemma rebuild_columns: "map_exn rebuild_column (map column_json cs) = Inr (map column_json cs)"
  by (induction cs) (simp_all add: column_json_def items_get_def)

lemma rebuild_table_json: "rebuild_table (table_json t) = Inr (table_json t)"
  by (simp add: table_json_def items_get_def rebuild_columns)

lemma rebuild_tables:
  "map_exn rebuild_table (filter is_dict (map table_json ts)) = Inr (map table_json ts)"
proof (induction ts)
  case Nil
  show ?case by simp
next
  case (Cons t ts)
  have "is_dict (table_json t)" by (simp add: table_json_def)
  with Cons show ?case by (simp add: rebuild_table_json)
qed

lemma rebuild_introspected: "rebuild (introspected_json r) = Inr (introspected_json r)"
  by (simp add: rebuild_def introspected_json_def items_get_def rebuild_tables)

lemma names_of_tables:
  "map_exn (\<lambda>t. dict_get t ''name'' JNull) (filter is_dict (map table_json ts))
   = Inr (map (\<lambda>t. JStr (tbl_name t)) ts)"
  by (induction ts) (simp_all add: table_json_def items_get_def)

lemma table_names_introspected:
  "table_names (introspected_json r) = Inr (map (\<lambda>t. JStr (tbl_name t)) (tables r))"
  by (simp add: table_names_def introspected_json_def items_get_def names_of_tables)

lemma py_set_names:
  "py_set (map (\<lambda>t. JStr (tbl_name t)) ts) = Inr (KStr ` tbl_name ` set ts)"
  by (auto simp: py_set_def list_all_iff image_iff)

lemma parse_failure_returns_raw:
  "normalize_with_ai (introspected_json r) None = Inr (introspected_json r)"
proof -
  have "exn_bind (dict_get (introspected_json r) ''database'' (JStr ''unknown'')) (\<lambda>db.
        exn_bind (dict_get (introspected_json r) ''tables'' (JArr [])) (\<lambda>ts.
        Inr (JObj [(''database'', db), (''tables'', ts)]))) = Inr (introspected_json r)"
    by (simp add: introspected_json_def items_get_def)
  then show ?thesis
    by (simp add: normalize_with_ai_def table_names_introspected py_set_names rebuild_introspected)
qed

lemma normalize_result:
  assumes "normalize_with_ai (introspected_json r) parsed = Inr S"
  shows "S = introspected_json r
         \<or> (parsed = Some S
            \<and> (\<exists>ns hs. table_names S = Inr ns \<and> ns \<noteq> [] \<and> py_set ns = Inr hs
                  \<and> hs = KStr ` tbl_name ` set (tables r)))"
proof (cases parsed)
  case None
  with assms parse_failure_returns_raw[of r] show ?thesis by simp
next
  case (Some j)
  from assms obtain ns where ns: "table_names j = Inr ns"
    and rest: "(if ns = [] then rebuild (introspected_json r)
                else exn_bind (py_set ns) (\<lambda>norm_set.
                     exn_bind (py_set (map (\<lambda>t. JStr (tbl_name t)) (tables r))) (\<lambda>raw_set.
                     if norm_set \<noteq> raw_set then rebuild (introspected_json r) else Inr j))) = Inr S"
    by (auto simp: normalize_with_ai_def Some table_names_introspected exn_bind_eq_Inr)
  show ?thesis
  proof (cases "ns = []")
    case True
    with rest show ?thesis by (simp add: rebuild_introspected)
  next
    case False
    with rest obtain hs where hs: "py_set ns = Inr hs"
      and r2: "(if hs \<noteq> KStr ` tbl_name ` set (tables r) then rebuild (introspected_json r) else Inr j) = Inr S"
      by (auto simp: exn_bind_eq_Inr py_set_names)
    show ?thesis
    proof (cases "hs = KStr ` tbl_name ` set (tables r)")
      case True
      with r2 have "S = j" by simp
      with Some ns False hs True show ?thesis by simp
    next
      case False
      with r2 show ?thesis by (simp add: rebuild_introspected)
    qed
  qed
qed

text \<open>
  C1: the snapshot has the table names and, per table, the column names of the raw schema.
  The code compares table names only. For the raw schema \<open>orders(id, total)\<close> and a reply
  that keeps \<open>orders\<close> but lists the columns \<open>id\<close> and \<open>customer_email\<close>, the reply is
  returned as it is, with column names that differ from the raw ones.
\<close>

theorem invented_column_is_accepted:
  "normalize_with_ai (introspected_json orders_raw) (Some invented_column_reply)
     = Inr invented_column_reply
   \<and> column_names invented_column_reply ''orders''
       \<noteq> column_names (introspected_json orders_raw) ''orders''"
  by code_simp

section \<open>Saving snapshots\<close>

lemma one_or_none_None: "one_or_none xs = Inr None \<longleftrightarrow> xs = []"
  by (cases xs rule: one_or_none.cases) simp_all

lemma one_or_none_Some: "one_or_none xs = Inr (Some x) \<longleftrightarrow> xs = [x]"
  by (cases xs rule: one_or_none.cases) auto

lemma discover_and_save_cases:
  assumes "discover_and_save cid introspected parsed st = Inr (st', n)"
  shows "(filter (\<lambda>s. snap_connection_id s = cid) st = []
          \<and> (\<exists>new. st' = st @ [new] \<and> snap_connection_id new = cid \<and> schema_json new = n))
       \<or> (\<exists>s. filter (\<lambda>s. snap_connection_id s = cid) st = [s]
              \<and> st' = map (\<lambda>x. if snap_id x = snap_id s then x\<lparr> schema_json := n \<rparr> else x) st)"
proof -
  from assms obtain raw normalized found where
    f: "one_or_none (filter (\<lambda>s. snap_connection_id s = cid) st) = Inr found"
    and r: "(case found of
       None \<Rightarrow>
         exn_bind (dict_get normalized ''database'' JNull) (\<lambda>db.
         Inr (st @
                [\<lparr> snap_id = next_id st, snap_connection_id = cid,
                   snap_name = (if truthy db then db else JStr []),
                   schema_json = normalized \<rparr>],
              normalized))
     | Some snapshot \<Rightarrow>
         Inr (map (\<lambda>s. if snap_id s = snap_id snapshot
                        then s\<lparr> schema_json := normalized \<rparr> else s) st,
              normalized)) = Inr (st', n)"
    unfolding discover_and_save_def exn_bind_eq_Inr by blast
  show ?thesis
  proof (cases found)
    case None
    with f have "filter (\<lambda>s. snap_connection_id s = cid) st = []" by (simp add: one_or_none_None)
    moreover from r None obtain db where
      "st' = st @ [\<lparr> snap_id = next_id st, snap_connection_id = cid,
                   snap_name = (if truthy db then db else JStr []),
                   schema_json = normalized \<rparr>]" "n = normalized"
      by (auto simp: exn_bind_eq_Inr)
    ultimately show ?thesis by simp
  next
    case (Some s)
    with f have "filter (\<lambda>s. snap_connection_id s = cid) st = [s]" by (simp add: one_or_none_Some)
    moreover from r Some have
      "st' = map (\<lambda>x. if snap_id x = snap_id s then x\<lparr> schema_json := n \<rparr> else x) st"
      by auto
    ultimately show ?thesis by blast
  qed
qed

lemma update_keeps_connection_ids:
  "map snap_connection_id (map (\<lambda>x. if snap_id x = i then x\<lparr> schema_json := n \<rparr> else x) st)
   = map snap_connection_id st"
  by (induction st) simp_all

lemma filter_update:
  "filter (\<lambda>s. snap_connection_id s = cid)
     (map (\<lambda>x. if snap_id x = i then x\<lparr> schema_json := n \<rparr> else x) st)
   = map (\<lambda>x. if snap_id x = i then x\<lparr> schema_json := n \<rparr> else x)
       (filter (\<lambda>s. snap_connection_id s = cid) st)"
  by (induction st) simp_all

lemma discover_and_save_distinct:
  assumes "distinct (map snap_connection_id st)"
      and "discover_and_save cid introspected parsed st = Inr (st', n)"
  shows "distinct (map snap_connection_id st')"
  using discover_and_save_cases[OF assms(2)]
proof (elim disjE conjE exE)
  fix new
  assume e: "filter (\<lambda>s. snap_connection_id s = cid) st = []"
     and s: "st' = st @ [new]" "snap_connection_id new = cid"
  from e have "cid \<notin> snap_connection_id ` set st" by (auto simp: filter_empty_conv)
  with assms(1) s show ?thesis by simp
next
  fix s
  assume "st' = map (\<lambda>x. if snap_id x = snap_id s then x\<lparr> schema_json := n \<rparr> else x) st"
  with assms(1) show ?thesis by (simp only: update_keeps_connection_ids)
qed

lemma discover_all_distinct:
  "distinct (map snap_connection_id st) \<Longrightarrow> distinct (map snap_connection_id (discover_all calls st))"
proof (induction calls st rule: discover_all.induct)
  case (1 st)
  then show ?case by simp
next
  case (2 cid introspected parsed calls st)
  show ?case
  proof (cases "discover_and_save cid introspected parsed st")
    case (Inl e)
    with 2 show ?thesis by simp
  next
    case (Inr p)
    obtain st' n where p: "p = (st', n)" by (cases p)
    from discover_and_save_distinct[OF "2.prems" Inr[unfolded p]]
    have "distinct (map snap_connection_id st')" .
    from "2.IH"(2)[OF Inr p[symmetric] this] Inr p show ?thesis by simp
  qed
qed

lemma distinct_filter_le1:
  "distinct (map f xs) \<Longrightarrow> length (filter (\<lambda>x. f x = a) xs) \<le> 1"
proof (induction xs)
  case Nil
  show ?case by simp
next
  case (Cons x xs)
  show ?case
  proof (cases "f x = a")
    case True
    with Cons.prems have "a \<notin> f ` set xs" by auto
    then have "filter (\<lambda>x. f x = a) xs = []" by (auto simp: filter_empty_conv)
    with True show ?thesis by simp
  next
    case False
    with Cons show ?thesis by simp
  qed
qed

text \<open>
  C9: after any sequence of \<open>discover_and_save\<close> calls on the empty table there is at most
  one snapshot per connection id. Every successful call leaves exactly one snapshot for
  its connection id, holding the schema just normalized; when a snapshot for the id was
  there before, it is updated in place and the table keeps its length.
\<close>

theorem one_snapshot_per_connection:
  "length (filter (\<lambda>s. snap_connection_id s = cid) (discover_all calls [])) \<le> 1
   \<and> (discover_and_save cid introspected parsed snapshots = Inr (snapshots', normalized) \<longrightarrow>
        length (filter (\<lambda>s. snap_connection_id s = cid) snapshots') = 1
        \<and> (\<forall>s\<in>set snapshots'. snap_connection_id s = cid \<longrightarrow> schema_json s = normalized)
        \<and> (cid \<in> snap_connection_id ` set snapshots \<longrightarrow> length snapshots' = length snapshots))"
proof (intro conjI impI)
  have "distinct (map snap_connection_id (discover_all calls []))"
    by (rule discover_all_distinct) simp
  then show "length (filter (\<lambda>s. snap_connection_id s = cid) (discover_all calls [])) \<le> 1"
    by (rule distinct_filter_le1)
next
  assume a: "discover_and_save cid introspected parsed snapshots = Inr (snapshots', normalized)"
  from discover_and_save_cases[OF a]
  show "length (filter (\<lambda>s. snap_connection_id s = cid) snapshots') = 1"
    by (auto simp: filter_update)
next
  assume a: "discover_and_save cid introspected parsed snapshots = Inr (snapshots', normalized)"
  from discover_and_save_cases[OF a]
  show "\<forall>s\<in>set snapshots'. snap_connection_id s = cid \<longrightarrow> schema_json s = normalized"
  proof (elim disjE conjE exE)
    fix new
    assume "filter (\<lambda>s. snap_connection_id s = cid) snapshots = []"
      "snapshots' = snapshots @ [new]" "snap_connection_id new = cid" "schema_json new = normalized"
    then show ?thesis by (auto simp: filter_empty_conv)
  next
    fix s
    assume f: "filter (\<lambda>s. snap_connection_id s = cid) snapshots = [s]"
      and u: "snapshots' = map (\<lambda>x. if snap_id x = snap_id s
                                       then x\<lparr> schema_json := normalized \<rparr> else x) snapshots"
    show ?thesis
    proof (intro ballI impI)
      fix y
      assume y: "y \<in> set snapshots'" "snap_connection_id y = cid"
      then obtain x where x: "x \<in> set snapshots"
        "y = (if snap_id x = snap_id s then x\<lparr> schema_json := normalized \<rparr> else x)"
        unfolding u by auto
      with y(2) have "snap_connection_id x = cid" by (simp split: if_splits)
      with x(1) have "x \<in> set (filter (\<lambda>s. snap_connection_id s = cid) snapshots)" by simp
      with f have "x = s" by simp
      with x(2) show "schema_json y = normalized" by simp
    qed
  qed
next
  assume a: "discover_and_save cid introspected parsed snapshots = Inr (snapshots', normalized)"
    and m: "cid \<in> snap_connection_id ` set snapshots"
  from discover_and_save_cases[OF a] m
  show "length snapshots' = length snapshots"
    by (auto simp: filter_empty_conv)
qed

theorem one_snapshot_per_connection_witness:
  "discover_and_save 1 (Inr (introspected_json orders_raw)) (Some invented_column_reply)
       (discover_all [(1, Inr (introspected_json orders_raw), None)] [])
     = Inr (discover_all [(1, Inr (introspected_json orders_raw), None),
                          (1, Inr (introspected_json orders_raw), Some invented_column_reply)] [],
            invented_column_reply)
   \<and> length (filter (\<lambda>s. snap_connection_id s = 1)
        (discover_all [(1, Inr (introspected_json orders_raw), None),
                       (1, Inr (introspected_json orders_raw), Some invented_column_reply)] [])) = 1
   \<and> length (discover_all [(1, Inr (introspected_json orders_raw), None),
                       (1, Inr (introspected_json orders_raw), Some invented_column_reply)] [])
       = length (discover_all [(1, Inr (introspected_json orders_raw), None)] [])"
proof -
  let ?s0 = "discover_all [(1, Inr (introspected_json orders_raw), None)] []"
  let ?s1 = "discover_all [(1, Inr (introspected_json orders_raw), None),
                       (1, Inr (introspected_json orders_raw), Some invented_column_reply)] []"
  have h: "discover_and_save 1 (Inr (introspected_json orders_raw)) (Some invented_column_reply) ?s0
           = Inr (?s1, invented_column_reply)"
    by code_simp
  have m: "1 \<in> snap_connection_id ` set ?s0" by code_simp
  from one_snapshot_per_connection[of 1 "[]" "Inr (introspected_json orders_raw)"
      "Some invented_column_reply" ?s0 ?s1 invented_column_reply] h m
  show ?thesis by blast
qed

end
